theory Spec2Isabelle
  imports Complex_Main
begin

section \<open>The model: result interpretation and layout of the alchemy search front end\<close>

subsection \<open>Recipe tree model and recipe extractor\<close>

text \<open>
  The typed recipe tree of \<^verbatim>\<open>StandardTreePage.tsx\<close>:
  \<^verbatim>\<open>interface RecipeNode { element: string; recipes?: RecipeNode[] }\<close>.
  A missing \<^verbatim>\<open>recipes\<close> field and an empty array take the same branch of every function
  below (\<^verbatim>\<open>!node.recipes || node.recipes.length === 0\<close>), so both are the empty list.
\<close>

datatype RecipeNode = RecipeNode (element: string) (recipes: "RecipeNode list")

record Recipe =
  result :: string
  ingredients :: "string list"

text \<open>
  \<^verbatim>\<open>extractRecipes(node, visited = new Set<string>())\<close> mutates the one \<^verbatim>\<open>visited\<close> set that is
  shared by the whole traversal; the model passes the set in and returns it updated together
  with the recipes pushed so far. \<open>extractChildren\<close> is the \<^verbatim>\<open>for (const child of node.recipes)\<close>
  loop.
\<close>

fun extractRecipes :: "RecipeNode \<Rightarrow> string set \<Rightarrow> Recipe list \<times> string set"
and extractChildren :: "RecipeNode list \<Rightarrow> string set \<Rightarrow> Recipe list \<times> string set"
where
  "extractRecipes (RecipeNode e rs) visited =
     (if rs = [] then ([], visited)
      else (case extractChildren rs visited of (acc, visited') \<Rightarrow>
        if e \<notin> visited'
        then (acc @ [\<lparr>result = e, ingredients = map element rs\<rparr>], insert e visited')
        else (acc, visited')))"
| "extractChildren [] visited = ([], visited)"
| "extractChildren (child # rest) visited =
     (case extractRecipes child visited of (r1, v1) \<Rightarrow>
        (case extractChildren rest v1 of (r2, v2) \<Rightarrow> (r1 @ r2, v2)))"

text \<open>The call site: \<^verbatim>\<open>const allRecipes = extractRecipes(data)\<close>, with a fresh visited set.\<close>

definition allRecipes :: "RecipeNode \<Rightarrow> Recipe list" where
  "allRecipes data = fst (extractRecipes data {})"

subsection \<open>Vocabulary for the extractor's properties\<close>

text \<open>All nodes of a tree, in pre-order.\<close>

fun nodes_of :: "RecipeNode \<Rightarrow> RecipeNode list" where
  "nodes_of (RecipeNode e rs) = RecipeNode e rs # concat (map nodes_of rs)"

text \<open>\<open>statement_of m r\<close>: \<open>r\<close> is the recipe statement of the expanded node \<open>m\<close>.\<close>

definition statement_of :: "RecipeNode \<Rightarrow> Recipe \<Rightarrow> bool" where
  "statement_of m r \<longleftrightarrow>
     recipes m \<noteq> [] \<and> result r = element m \<and> ingredients r = map element (recipes m)"

text \<open>
  \<open>bottom_up seen T out\<close>: every entry of \<open>out\<close> is the statement of a node of \<open>T\<close>, its result is
  new with respect to \<open>seen\<close> and the entries before it, and every ingredient sub-tree of that
  node which has recipes of its own already has its result among them.
\<close>

fun bottom_up :: "string set \<Rightarrow> RecipeNode set \<Rightarrow> Recipe list \<Rightarrow> bool" where
  "bottom_up seen T [] = True"
| "bottom_up seen T (r # rs) =
     ((\<exists>m\<in>T. statement_of m r \<and> (\<forall>c\<in>set (recipes m). recipes c \<noteq> [] \<longrightarrow> element c \<in> seen))
      \<and> result r \<notin> seen \<and> bottom_up (insert (result r) seen) T rs)"

text \<open>
  The ordering as the specification words it: whenever the result of one entry is an
  ingredient of another entry, the former comes strictly first.
\<close>

definition ingredients_first :: "Recipe list \<Rightarrow> bool" where
  "ingredients_first out \<longleftrightarrow>
     (\<forall>i<length out. \<forall>j<length out. result (out ! j) \<in> set (ingredients (out ! i)) \<longrightarrow> j < i)"

text \<open>
  A tree is uniformly expanded when no element occurs both as a leaf and as a node with
  recipes.
\<close>

definition uniformly_expanded :: "RecipeNode \<Rightarrow> bool" where
  "uniformly_expanded t \<longleftrightarrow>
     (\<forall>m\<in>set (nodes_of t). \<forall>n\<in>set (nodes_of t).
        element m = element n \<longrightarrow> (recipes m = [] \<longleftrightarrow> recipes n = []))"

subsection \<open>Bidirectional classifier\<close>

text \<open>
  The classifier and the trace builder take their trees as \<^verbatim>\<open>any\<close>: a node is an object
  whose \<^verbatim>\<open>element\<close> field may be missing (\<open>None\<close>) and whose \<^verbatim>\<open>recipes\<close> field, when missing or
  not an array, is treated like the empty array by every test
  (\<^verbatim>\<open>node.recipes && Array.isArray(node.recipes) && node.recipes.length > 0\<close>). The entries of a
  \<^verbatim>\<open>recipes\<close> array are objects; \<^verbatim>\<open>null\<close> entries are outside the model.
\<close>

datatype TreeNode = TreeNode (nodeElement: "string option") (nodeRecipes: "TreeNode list")

text \<open>
  JavaScript truthiness of \<^verbatim>\<open>node.element\<close>: a missing field and the empty string both fail
  \<^verbatim>\<open>!node.element\<close>.
\<close>

definition truthy :: "string option \<Rightarrow> bool" where
  "truthy e = (case e of None \<Rightarrow> False | Some s \<Rightarrow> s \<noteq> [])"

text \<open>
  The explicit payload. A visited map is a JavaScript object from element names to
  \<^verbatim>\<open>{ Recipe: [ingredient, ...] }\<close> values, kept as its property list; a property value may
  be \<^verbatim>\<open>null\<close> (\<open>None\<close>) and the \<^verbatim>\<open>Recipe\<close> field may be absent. The two casings of every
  optional field are separate fields, absent when \<open>None\<close>. \<open>dataNode\<close> holds the payload's own
  \<^verbatim>\<open>element\<close> and \<^verbatim>\<open>recipes\<close>, which make it the root of a recipe tree.
\<close>

datatype RecipeInfo = RecipeInfo (infoRecipe: "string list option")

type_synonym VisitedMap = "(string \<times> RecipeInfo option) list"

record RecipeData =
  dataNode :: TreeNode
  forwardVisited :: "VisitedMap option"
  ForwardVisited :: "VisitedMap option"
  backwardVisited :: "VisitedMap option"
  BackwardVisited :: "VisitedMap option"
  meetingPoints :: "string list option"
  MeetingPoints :: "string list option"

text \<open>
  The four accumulators \<^verbatim>\<open>newForwardElements\<close>, \<^verbatim>\<open>newBackwardElements\<close>, \<^verbatim>\<open>newMeetingPoints\<close>
  and \<^verbatim>\<open>newElementConnections\<close>, which become the component state.
\<close>

record BidirectionalState =
  forward :: "string set"
  backward :: "string set"
  meeting :: "string set"
  connections :: "string \<rightharpoonup> string list"

definition basicElements :: "string list" where
  "basicElements = [''Water'', ''Fire'', ''Earth'', ''Air'']"

text \<open>
  \<^verbatim>\<open>a || b\<close> on optional objects and arrays (every object, also an empty one, is truthy),
  the final \<^verbatim>\<open>|| {}\<close> or \<^verbatim>\<open>|| []\<close>, and the property read \<^verbatim>\<open>obj[key]\<close>.
\<close>

definition orElse :: "'a option \<Rightarrow> 'a option \<Rightarrow> 'a option" where
  "orElse a b = (case a of Some x \<Rightarrow> Some x | None \<Rightarrow> b)"

definition orEmpty :: "'a list option \<Rightarrow> 'a list" where
  "orEmpty a = (case a of Some xs \<Rightarrow> xs | None \<Rightarrow> [])"

definition property :: "('k \<times> 'v option) list \<Rightarrow> 'k \<Rightarrow> 'v option" where
  "property obj k = (case map_of obj k of Some v \<Rightarrow> v | None \<Rightarrow> None)"

text \<open>
  \<^verbatim>\<open>recipeInfo && recipeInfo.Recipe && recipeInfo.Recipe.length > 0\<close>, returning the list.
\<close>

definition usableRecipe :: "RecipeInfo option \<Rightarrow> string list option" where
  "usableRecipe recipeInfo =
     (case recipeInfo of
        None \<Rightarrow> None
      | Some info \<Rightarrow>
          (case infoRecipe info of
             None \<Rightarrow> None
           | Some r \<Rightarrow> if length r > 0 then Some r else None))"

text \<open>
  \<^verbatim>\<open>Object.keys(forwardData).forEach(...)\<close> and its backward twin: add the key to the set and,
  when the value carries a non-empty recipe, store it as the element's connection.
\<close>

fun forwardEach :: "VisitedMap \<Rightarrow> string list \<Rightarrow> BidirectionalState \<Rightarrow> BidirectionalState" where
  "forwardEach forwardData [] st = st"
| "forwardEach forwardData (element' # rest) st =
     (let st1 = st\<lparr>forward := insert element' (forward st)\<rparr>;
          st2 = (case usableRecipe (property forwardData element') of
                   Some r \<Rightarrow> st1\<lparr>connections := (connections st1)(element' \<mapsto> r)\<rparr>
                 | None \<Rightarrow> st1)
      in forwardEach forwardData rest st2)"

fun backwardEach :: "VisitedMap \<Rightarrow> string list \<Rightarrow> BidirectionalState \<Rightarrow> BidirectionalState" where
  "backwardEach backwardData [] st = st"
| "backwardEach backwardData (element' # rest) st =
     (let st1 = st\<lparr>backward := insert element' (backward st)\<rparr>;
          st2 = (case usableRecipe (property backwardData element') of
                   Some r \<Rightarrow> st1\<lparr>connections := (connections st1)(element' \<mapsto> r)\<rparr>
                 | None \<Rightarrow> st1)
      in backwardEach backwardData rest st2)"

text \<open>
  \<^verbatim>\<open>findPathToTarget(node, target, currentPath)\<close>; \<open>findPathChildren\<close> is its
  \<^verbatim>\<open>for (const child of node.recipes)\<close> loop, which returns the first non-empty path.
\<close>

fun findPathToTarget :: "TreeNode \<Rightarrow> string \<Rightarrow> string list \<Rightarrow> string list"
and findPathChildren :: "TreeNode list \<Rightarrow> string \<Rightarrow> string list \<Rightarrow> string list"
where
  "findPathToTarget (TreeNode el rs) target currentPath =
     (case el of
        None \<Rightarrow> []
      | Some e \<Rightarrow>
          if e = [] then []
          else if e = target then currentPath @ [e]
          else if rs = [] then []
          else findPathChildren rs target (currentPath @ [e]))"
| "findPathChildren [] target path = []"
| "findPathChildren (child # rest) target path =
     (let p = findPathToTarget child target path
      in if length p > 0 then p else findPathChildren rest target path)"

text \<open>
  \<^verbatim>\<open>currentNode.recipes.filter((r) => r && r.element).map((r) => r.element)\<close> and
  \<^verbatim>\<open>ingredients.includes(ingredient.element)\<close>.
\<close>

definition validIngredients :: "TreeNode list \<Rightarrow> string list" where
  "validIngredients rs = map (\<lambda>r. the (nodeElement r)) (filter (\<lambda>r. truthy (nodeElement r)) rs)"

definition arrayIncludes :: "string list \<Rightarrow> string option \<Rightarrow> bool" where
  "arrayIncludes xs v = (case v of None \<Rightarrow> False | Some x \<Rightarrow> x \<in> set xs)"

text \<open>
  The inner \<^verbatim>\<open>processNode(currentNode, pathToTarget)\<close> of
  \<^verbatim>\<open>buildBidirectionalFromRecipeTree\<close>, with the three captured accumulators passed as
  a state; \<open>processEach\<close> is \<^verbatim>\<open>currentNode.recipes.forEach((ingredient) => ...)\<close>.
\<close>

fun processNode :: "string \<Rightarrow> TreeNode \<Rightarrow> bool \<Rightarrow> BidirectionalState \<Rightarrow> BidirectionalState"
and processEach :: "string \<Rightarrow> string list \<Rightarrow> bool \<Rightarrow> TreeNode list \<Rightarrow> BidirectionalState \<Rightarrow> BidirectionalState"
where
  "processNode targetElement (TreeNode el rs) pathToTarget st =
     (case el of
        None \<Rightarrow> st
      | Some e \<Rightarrow>
          if e = [] then st
          else
            let st1 = (if e \<in> set basicElements then st\<lparr>forward := insert e (forward st)\<rparr> else st);
                st2 = (if e = targetElement then st1\<lparr>backward := insert e (backward st1)\<rparr> else st1)
            in if length rs > 0 then
                 (let ingredients' = validIngredients rs
                  in if length ingredients' > 0 then
                       (let st3 = st2\<lparr>connections := (connections st2)(e \<mapsto> ingredients')\<rparr>;
                            st4 = (if pathToTarget \<or> e = targetElement
                                   then st3\<lparr>backward := insert e (backward st3) \<union> set ingredients'\<rparr>
                                   else st3\<lparr>forward := insert e (forward st3) \<union> set ingredients'\<rparr>)
                        in processEach targetElement ingredients' pathToTarget rs st4)
                     else st2)
               else if e = targetElement then st2\<lparr>backward := insert e (backward st2)\<rparr>
               else if e \<in> set basicElements then st2\<lparr>forward := insert e (forward st2)\<rparr>
               else st2)"
| "processEach targetElement ingredients' pathToTarget [] st = st"
| "processEach targetElement ingredients' pathToTarget (ingredient # rest) st =
     (let ingredientOnPath =
            (pathToTarget \<and> arrayIncludes ingredients' (nodeElement ingredient) \<and>
             length (findPathToTarget ingredient targetElement []) > 0)
      in processEach targetElement ingredients' pathToTarget rest
           (processNode targetElement ingredient ingredientOnPath st))"

definition buildBidirectionalFromRecipeTree ::
  "string \<Rightarrow> TreeNode \<Rightarrow> BidirectionalState \<Rightarrow> BidirectionalState" where
  "buildBidirectionalFromRecipeTree targetElement node st =
     (if \<not> truthy (nodeElement node) then st
      else
        let path = findPathToTarget node targetElement [];
            isInPath = (length path > 0)
        in processNode targetElement node isInPath st)"

text \<open>
  \<^verbatim>\<open>processRecipeData(data)\<close>. It returns without touching the state when
  \<^verbatim>\<open>!data || !data.element\<close> (\<open>None\<close>); otherwise the four accumulators it ends with are the
  new state. \<open>targetElement\<close> is the component's property.
\<close>

definition hasExplicitData :: "RecipeData \<Rightarrow> bool" where
  "hasExplicitData data \<longleftrightarrow>
     forwardVisited data \<noteq> None \<or> ForwardVisited data \<noteq> None \<or>
     backwardVisited data \<noteq> None \<or> BackwardVisited data \<noteq> None"

definition processRecipeData :: "string \<Rightarrow> RecipeData \<Rightarrow> BidirectionalState option" where
  "processRecipeData targetElement data =
     (if \<not> truthy (nodeElement (dataNode data)) then None
      else
        let st0 = \<lparr>forward = set basicElements, backward = {targetElement},
                   meeting = {}, connections = Map.empty\<rparr>;
            st1 =
              (if hasExplicitData data then
                 (let forwardData = orEmpty (orElse (forwardVisited data) (ForwardVisited data));
                      sf = forwardEach forwardData (map fst forwardData) st0;
                      backwardData = orEmpty (orElse (backwardVisited data) (BackwardVisited data));
                      sb = backwardEach backwardData (map fst backwardData) sf;
                      meetingArray = orEmpty (orElse (meetingPoints data) (MeetingPoints data))
                  in sb\<lparr>meeting := meeting sb \<union> set meetingArray\<rparr>)
               else buildBidirectionalFromRecipeTree targetElement (dataNode data) st0)
        in Some (st1\<lparr>meeting := meeting st1 \<union> {element' \<in> forward st1. element' \<in> backward st1}\<rparr>))"

subsection \<open>Vocabulary for the classifier's properties\<close>

text \<open>
  A payload that is a plain recipe tree, without any explicit field.
\<close>

definition plainTree :: "TreeNode \<Rightarrow> RecipeData" where
  "plainTree t = \<lparr>dataNode = t, forwardVisited = None, ForwardVisited = None,
     backwardVisited = None, BackwardVisited = None, meetingPoints = None, MeetingPoints = None\<rparr>"

text \<open>
  The explicit meeting-point list that \<open>processRecipeData\<close> reads (empty in implicit mode),
  and the invariant as the specification states it.
\<close>

definition explicitMeeting :: "RecipeData \<Rightarrow> string set" where
  "explicitMeeting data =
     (if hasExplicitData data then set (orEmpty (orElse (meetingPoints data) (MeetingPoints data)))
      else {})"

definition meeting_is_intersection :: "BidirectionalState \<Rightarrow> bool" where
  "meeting_is_intersection st \<longleftrightarrow> meeting st = forward st \<inter> backward st"

text \<open>
  The net effect of \<open>processNode\<close> on a node without well-formed ingredients, and its effect
  on a node with ingredients before it descends (used to unfold \<open>processNode\<close> in proofs).
\<close>

definition touchNode :: "string \<Rightarrow> string \<Rightarrow> BidirectionalState \<Rightarrow> BidirectionalState" where
  "touchNode tg e st =
     st\<lparr>forward := forward st \<union> (if e \<in> set basicElements then {e} else {}),
        backward := backward st \<union> (if e = tg then {e} else {})\<rparr>"

definition enterNode ::
  "string \<Rightarrow> string \<Rightarrow> string list \<Rightarrow> bool \<Rightarrow> BidirectionalState \<Rightarrow> BidirectionalState" where
  "enterNode tg e ings p st =
     st\<lparr>forward := forward st \<union> (if e \<in> set basicElements then {e} else {}) \<union>
                     (if p \<or> e = tg then {} else insert e (set ings)),
        backward := backward st \<union> (if p \<or> e = tg then insert e (set ings) else {}),
        connections := (connections st)(e \<mapsto> ings)\<rparr>"

text \<open>
  An explicit payload whose advisory meeting-point list names an element that neither
  search visited.
\<close>

definition advisoryPayload :: RecipeData where
  "advisoryPayload =
     \<lparr>dataNode = TreeNode (Some ''Wood'') [],
      forwardVisited = Some [(''Water'', Some (RecipeInfo None)),
                             (''Wood'', Some (RecipeInfo (Some [''Water'', ''Earth''])))],
      ForwardVisited = None,
      backwardVisited = Some [(''Wood'', Some (RecipeInfo None))],
      BackwardVisited = None,
      meetingPoints = Some [''Mud''], MeetingPoints = None\<rparr>"

text \<open>
  An explicit payload, in the capitalised casing, where both maps give \<open>Brick\<close> a recipe.
\<close>

definition bothRecipesPayload :: RecipeData where
  "bothRecipesPayload =
     \<lparr>dataNode = TreeNode (Some ''Brick'') [],
      forwardVisited = None,
      ForwardVisited = Some [(''Brick'', Some (RecipeInfo (Some [''Mud'', ''Fire''])))],
      backwardVisited = None,
      BackwardVisited = Some [(''Brick'', Some (RecipeInfo (Some [''Clay'', ''Stone''])))],
      meetingPoints = None, MeetingPoints = None\<rparr>"

text \<open>
  The element of a well-formed node, its well-formed ingredients, the nodes that
  \<open>processNode\<close> reaches in the order it reaches them (it does not descend below a
  malformed node), and whether \<open>findPathToTarget\<close> finds the target from a node.
\<close>

definition elementOf :: "TreeNode \<Rightarrow> string" where
  "elementOf n = (case nodeElement n of Some e \<Rightarrow> e | None \<Rightarrow> [])"

definition ingredientsOf :: "TreeNode \<Rightarrow> string list" where
  "ingredientsOf n = validIngredients (nodeRecipes n)"

fun walk :: "TreeNode \<Rightarrow> TreeNode list" where
  "walk (TreeNode el rs) = (if truthy el then TreeNode el rs # concat (map walk rs) else [])"

definition reachesTarget :: "string \<Rightarrow> TreeNode \<Rightarrow> bool" where
  "reachesTarget tg n \<longleftrightarrow> findPathToTarget n tg [] \<noteq> []"

text \<open>
  The nodes of the path that \<open>findPathToTarget\<close> returns: depth first, first match, in
  ingredient order.
\<close>

fun targetPath :: "TreeNode \<Rightarrow> string \<Rightarrow> TreeNode list"
and targetPathChildren :: "TreeNode list \<Rightarrow> string \<Rightarrow> TreeNode list"
where
  "targetPath (TreeNode el rs) tg =
     (if \<not> truthy el then []
      else if el = Some tg then [TreeNode el rs]
      else (case targetPathChildren rs tg of [] \<Rightarrow> [] | p # ps \<Rightarrow> TreeNode el rs # p # ps))"
| "targetPathChildren [] tg = []"
| "targetPathChildren (c # cs) tg =
     (case targetPath c tg of [] \<Rightarrow> targetPathChildren cs tg | p # ps \<Rightarrow> p # ps)"

text \<open>
  What one visited node contributes: its connection entry, and its own element with its
  ingredients to the forward set (no target below it) or to the backward set (the target
  is reachable from it).
\<close>

definition recordConnection :: "TreeNode \<Rightarrow> (string \<rightharpoonup> string list) \<Rightarrow> (string \<rightharpoonup> string list)" where
  "recordConnection m acc = (if ingredientsOf m \<noteq> [] then acc(elementOf m \<mapsto> ingredientsOf m) else acc)"

definition forwardShare :: "string \<Rightarrow> TreeNode \<Rightarrow> string set" where
  "forwardShare tg m =
     (if ingredientsOf m \<noteq> [] \<and> \<not> reachesTarget tg m
      then insert (elementOf m) (set (ingredientsOf m)) else {})"

definition backwardShare :: "string \<Rightarrow> TreeNode \<Rightarrow> string set" where
  "backwardShare tg m =
     (if ingredientsOf m \<noteq> [] \<and> reachesTarget tg m
      then insert (elementOf m) (set (ingredientsOf m)) else {})"

text \<open>
  The classification of the other nodes as the specification states it: every visited
  node that is neither on the first-match path nor a direct ingredient of a node on it has
  its element in the forward set.
\<close>

definition off_path_forward :: "string \<Rightarrow> TreeNode \<Rightarrow> BidirectionalState \<Rightarrow> bool" where
  "off_path_forward tg t st \<longleftrightarrow>
     (\<forall>n\<in>set (walk t). n \<notin> set (targetPath t tg) \<longrightarrow>
        (\<forall>m\<in>set (targetPath t tg). n \<notin> set (nodeRecipes m)) \<longrightarrow> elementOf n \<in> forward st)"

text \<open>
  The first-match path is the only route to the target: every visited node from which the
  target is reachable lies on it.
\<close>

definition single_route :: "string \<Rightarrow> TreeNode \<Rightarrow> bool" where
  "single_route tg t \<longleftrightarrow>
     (\<forall>n\<in>set (walk t). reachesTarget tg n \<longrightarrow> n \<in> set (targetPath t tg))"

text \<open>
  A tree with every malformed node deleted, together with the sub-tree below it.
\<close>

fun prune :: "TreeNode \<Rightarrow> TreeNode" where
  "prune (TreeNode el rs) = TreeNode el (map prune (filter (\<lambda>r. truthy (nodeElement r)) rs))"

text \<open>
  The union of what a list of visited nodes adds to each set.
\<close>

definition forwardOf :: "string \<Rightarrow> TreeNode list \<Rightarrow> string set" where
  "forwardOf tg ns =
     (\<Union>m\<in>set ns. (if elementOf m \<in> set basicElements then {elementOf m} else {}) \<union> forwardShare tg m)"

definition backwardOf :: "string \<Rightarrow> TreeNode list \<Rightarrow> string set" where
  "backwardOf tg ns =
     (\<Union>m\<in>set ns. (if elementOf m = tg then {tg} else {}) \<union> backwardShare tg m)"

text \<open>
  Sample trees: one where the target \<open>T\<close> is reachable along two routes, the
  specification's \<open>Mud\<close> scenario, and the latter with a malformed node inserted.
\<close>

definition twoRoutes :: TreeNode where
  "twoRoutes =
     TreeNode (Some ''R'')
       [TreeNode (Some ''A'') [TreeNode (Some ''T'') []],
        TreeNode (Some ''B'') [TreeNode (Some ''C'') [TreeNode (Some ''T'') []]]]"

definition mudTree :: TreeNode where
  "mudTree = TreeNode (Some ''Mud'') [TreeNode (Some ''Water'') [], TreeNode (Some ''Earth'') []]"

definition holedTree :: TreeNode where
  "holedTree =
     TreeNode (Some ''Mud'')
       [TreeNode (Some ''Water'') [],
        TreeNode None [TreeNode (Some ''Fire'') [TreeNode (Some ''Air'') []]],
        TreeNode (Some ''Earth'') []]"

subsection \<open>DFS trace builder\<close>

text \<open>
  \<^verbatim>\<open>interface DFSNode { element; depth; parent: string | null; id }\<close>. The fields are named
  \<open>dfsElement\<close> and \<open>nodeId\<close> here; \<open>depth\<close> is an integer, so that \<^verbatim>\<open>data.depth - 1\<close> below
  depth \<open>0\<close> is \<open>-1\<close> as in the source. A node built from a server message copies
  \<^verbatim>\<open>data.parent\<close> as it arrives, and \<^verbatim>\<open>===\<close> tells a missing field from \<^verbatim>\<open>null\<close>: the parent is
  \<^verbatim>\<open>undefined\<close>, \<^verbatim>\<open>null\<close> or a string.
\<close>

datatype ParentRef = Undefined | Null | Parent string

record DFSNode =
  dfsElement :: string
  depth :: int
  parent :: ParentRef
  nodeId :: string

text \<open>
  Template strings render a number in decimal: \<^verbatim>\<open>`${depth}`\<close>.
\<close>

fun showNat :: "nat \<Rightarrow> string" where
  "showNat n = (if n < 10 then [''0123456789'' ! n] else showNat (n div 10) @ [''0123456789'' ! (n mod 10)])"

declare showNat.simps [simp del]

definition showInt :: "int \<Rightarrow> string" where
  "showInt d = (if d < 0 then ''-'' @ showNat (nat (- d)) else showNat (nat d))"

text \<open>
  \<^verbatim>\<open>parent || "root"\<close>, \<^verbatim>\<open>new Set(parent ? [parent] : [])\<close>, and the two keys
  \<^verbatim>\<open>`${node.element}_${depth}_${parent || "root"}`\<close> and \<^verbatim>\<open>`${node.element}_${depth}`\<close>.
\<close>

definition orRoot :: "ParentRef \<Rightarrow> string" where
  "orRoot parent' =
     (case parent' of
        Undefined \<Rightarrow> ''root''
      | Null \<Rightarrow> ''root''
      | Parent p \<Rightarrow> if p = [] then ''root'' else p)"

definition parentSet :: "ParentRef \<Rightarrow> string set" where
  "parentSet parent' =
     (case parent' of
        Undefined \<Rightarrow> {}
      | Null \<Rightarrow> {}
      | Parent p \<Rightarrow> if p = [] then {} else {p})"

definition nodeKeyOf :: "string \<Rightarrow> int \<Rightarrow> ParentRef \<Rightarrow> string" where
  "nodeKeyOf e d p = e @ ''_'' @ showInt d @ ''_'' @ orRoot p"

definition elementKeyOf :: "string \<Rightarrow> int \<Rightarrow> string" where
  "elementKeyOf e d = e @ ''_'' @ showInt d"

text \<open>
  The state of one \<^verbatim>\<open>processRecipeTree\<close> call: the local array \<^verbatim>\<open>dfsNodes\<close>, the map
  \<^verbatim>\<open>elementTracker\<close>, and the number of identifiers drawn so far. An identifier ends in
  \<^verbatim>\<open>`${Date.now()}_${Math.random()}`\<close>; the environment supplies these endings as \<open>stamp\<close>.
\<close>

record TraceState =
  traceNodes :: "DFSNode list"
  elementTracker :: "string \<rightharpoonup> DFSNode \<times> string set"
  stamps :: nat

text \<open>
  \<^verbatim>\<open>traverseDFS(node, depth, parent, visited)\<close>; the root is entered with \<^verbatim>\<open>null\<close> and every
  child with its parent's element. Every child receives its own copy
  \<^verbatim>\<open>new Set(visited)\<close>, so \<open>visited\<close> is passed down and never returned; \<open>traverseEach\<close> is
  \<^verbatim>\<open>node.recipes.forEach(...)\<close>. The value the function returns is not used by any caller.
  \<^verbatim>\<open>if (parent) existing.parents.add(parent)\<close> is the union with \<open>parentSet parent\<close>.
\<close>

fun traverseDFS ::
  "(nat \<Rightarrow> string) \<Rightarrow> TreeNode \<Rightarrow> int \<Rightarrow> ParentRef \<Rightarrow> string set \<Rightarrow> TraceState \<Rightarrow> TraceState"
and traverseEach ::
  "(nat \<Rightarrow> string) \<Rightarrow> TreeNode list \<Rightarrow> int \<Rightarrow> ParentRef \<Rightarrow> string set \<Rightarrow> TraceState \<Rightarrow> TraceState"
where
  "traverseDFS stamp (TreeNode el rs) depth' parent' visited st =
     (case el of
        None \<Rightarrow> st
      | Some e \<Rightarrow>
          if e = [] then st
          else
            let nodeKey = nodeKeyOf e depth' parent'
            in if nodeKey \<in> visited then st
               else
                 let visited' = insert nodeKey visited;
                     nodeData = \<lparr>dfsElement = e, depth = depth', parent = parent',
                                 nodeId = e @ ''_'' @ showInt depth' @ ''_'' @ stamp (stamps st)\<rparr>;
                     st1 = st\<lparr>stamps := Suc (stamps st)\<rparr>;
                     elementKey = elementKeyOf e depth'
                 in (case elementTracker st1 elementKey of
                       Some existing \<Rightarrow>
                         st1\<lparr>elementTracker := (elementTracker st1)
                               (elementKey \<mapsto> (fst existing, snd existing \<union> parentSet parent'))\<rparr>
                     | None \<Rightarrow>
                         (let st2 = st1\<lparr>elementTracker := (elementTracker st1)
                                     (elementKey \<mapsto> (nodeData, parentSet parent')),
                                   traceNodes := traceNodes st1 @ [nodeData]\<rparr>
                          in traverseEach stamp rs (depth' + 1) (Parent e) visited' st2)))"
| "traverseEach stamp [] depth' parent' visited st = st"
| "traverseEach stamp (recipe # rest) depth' parent' visited st =
     traverseEach stamp rest depth' parent' visited
       (traverseDFS stamp recipe depth' parent' visited st)"

definition emptyTrace :: TraceState where
  "emptyTrace = \<lparr>traceNodes = [], elementTracker = Map.empty, stamps = 0\<rparr>"

text \<open>
  \<^verbatim>\<open>processDFSData(data)\<close>: the part of the \<^verbatim>\<open>setDfsNodes\<close> updater that decides the node
  list and the connections, and the element added to \<^verbatim>\<open>visitedNodes\<close>. An \<^verbatim>\<open>element\<close> or
  \<^verbatim>\<open>depth\<close> that is \<^verbatim>\<open>undefined\<close> is \<open>None\<close>; when present they are a string and an integer.
  The duplicate test compares the parents with \<^verbatim>\<open>===\<close>, and \<^verbatim>\<open>data.parent !== null\<close> lets a
  missing parent through to the search for a node whose element is \<^verbatim>\<open>undefined\<close>, which no
  node has. The highlight of the current path, computed in the same updater from the
  updated list, feeds back into neither and is left out.
\<close>

record DFSMessage =
  msgElement :: "string option"
  msgDepth :: "int option"
  msgParent :: ParentRef

record Connection =
  connParent :: string
  connChild :: string

record DFSState =
  dfsNodes :: "DFSNode list"
  dfsConnections :: "Connection list"
  visitedNodes :: "string set"

definition processDFSData :: "string \<Rightarrow> DFSMessage \<Rightarrow> DFSState \<Rightarrow> DFSState" where
  "processDFSData stamp data st =
     (case (msgElement data, msgDepth data) of
        (Some e, Some d) \<Rightarrow>
          (let newNode = \<lparr>dfsElement = e, depth = d, parent = msgParent data,
                           nodeId = e @ ''_'' @ showInt d @ ''_'' @ stamp\<rparr>;
               prev = dfsNodes st;
               st' =
                 (case find (\<lambda>n. dfsElement n = e \<and> depth n = d \<and> parent n = msgParent data) prev of
                    Some existing \<Rightarrow> st
                  | None \<Rightarrow>
                      (let updated = prev @ [newNode];
                           conns =
                             (case msgParent data of
                                Null \<Rightarrow> dfsConnections st
                              | Undefined \<Rightarrow> dfsConnections st
                              | Parent p \<Rightarrow>
                                  (case find (\<lambda>n. dfsElement n = p \<and> depth n = d - 1) prev of
                                     None \<Rightarrow> dfsConnections st
                                   | Some parentNode \<Rightarrow>
                                       if \<not> (\<exists>conn\<in>set (dfsConnections st).
                                                connParent conn = nodeId parentNode \<and>
                                                connChild conn = nodeId newNode)
                                       then dfsConnections st @
                                              [\<lparr>connParent = nodeId parentNode, connChild = nodeId newNode\<rparr>]
                                       else dfsConnections st))
                       in st\<lparr>dfsNodes := updated, dfsConnections := conns\<rparr>))
           in st'\<lparr>visitedNodes := insert e (visitedNodes st')\<rparr>)
      | _ \<Rightarrow> st)"

text \<open>
  \<^verbatim>\<open>processRecipeTree\<close>: clear the node list and the connections, build the trace, and hand
  every node of it to \<^verbatim>\<open>processDFSData\<close> in order (the timers fire in index order).
\<close>

definition messageOf :: "DFSNode \<Rightarrow> DFSMessage" where
  "messageOf n = \<lparr>msgElement = Some (dfsElement n), msgDepth = Some (depth n), msgParent = parent n\<rparr>"

fun replay :: "(nat \<Rightarrow> string) \<Rightarrow> nat \<Rightarrow> DFSMessage list \<Rightarrow> DFSState \<Rightarrow> DFSState" where
  "replay stamp k [] st = st"
| "replay stamp k (m # ms) st = replay stamp (Suc k) ms (processDFSData (stamp k) m st)"

definition emptyDFS :: DFSState where
  "emptyDFS = \<lparr>dfsNodes = [], dfsConnections = [], visitedNodes = {}\<rparr>"

definition processRecipeTree :: "(nat \<Rightarrow> string) \<Rightarrow> TreeNode \<Rightarrow> DFSState \<Rightarrow> DFSState" where
  "processRecipeTree stamp recipeTree st =
     (let trace = traverseDFS stamp recipeTree 0 Null {} emptyTrace
      in replay stamp (stamps trace) (map messageOf (traceNodes trace))
           (st\<lparr>dfsNodes := [], dfsConnections := []\<rparr>))"

subsection \<open>Vocabulary for the trace builder's properties\<close>


definition brickTree :: TreeNode where
  "brickTree = TreeNode (Some ''Wall'')
     [TreeNode (Some ''Y'') [TreeNode (Some ''Brick'') []],
      TreeNode (Some ''X'') [TreeNode (Some ''Brick'') []]]"

text \<open>
  The triple that identifies a node, the key under which the tracker files it, and the
  invariant of the traversal: every emitted node is filed under its own key, with its
  parent in the parent set, and no two emitted nodes share a key.
\<close>

definition triple :: "DFSNode \<Rightarrow> string \<times> int \<times> ParentRef" where
  "triple n = (dfsElement n, depth n, parent n)"

definition keyOf :: "DFSNode \<Rightarrow> string" where
  "keyOf n = elementKeyOf (dfsElement n) (depth n)"

definition tracked :: "TraceState \<Rightarrow> bool" where
  "tracked st \<longleftrightarrow>
     distinct (map keyOf (traceNodes st)) \<and>
     (\<forall>n\<in>set (traceNodes st). \<exists>ps. elementTracker st (keyOf n) = Some (n, ps) \<and> parentSet (parent n) \<subseteq> ps)"

subsection \<open>Layout\<close>

text \<open>
  \<^verbatim>\<open>createDFSLayout(nodes)\<close> reads the container through \<^verbatim>\<open>getDimensions()\<close> and the
  \<^verbatim>\<open>connections\<close> state. JavaScript numbers are taken as real numbers: the rounding of
  IEEE doubles is not modelled. \<open>svg\<close> is \<^verbatim>\<open>svgRef.current\<close> with its client width and height.
\<close>

record PositionedNode = DFSNode +
  posX :: real
  posY :: real

definition getDimensions :: "(int \<times> int) option \<Rightarrow> real \<times> real" where
  "getDimensions svg =
     (case svg of
        None \<Rightarrow> (800, 600)
      | Some (clientWidth, clientHeight) \<Rightarrow>
          ((if clientWidth = 0 then 800 else real_of_int clientWidth),
           (if clientHeight = 0 then 600 else real_of_int clientHeight)))"

text \<open>
  \<^verbatim>\<open>nodesByDepth[d]\<close> is the list of the nodes of depth \<open>d\<close> in their order.
  \<^verbatim>\<open>depthNodes.indexOf(node)\<close> compares object references, and the nodes of the state array are
  distinct objects: the index of the \<open>i\<close>-th node is the number of earlier nodes of its depth.
\<close>

definition depthNodes :: "DFSNode list \<Rightarrow> int \<Rightarrow> DFSNode list" where
  "depthNodes nodes d = filter (\<lambda>m. depth m = d) nodes"

definition indexAtDepth :: "DFSNode list \<Rightarrow> nat \<Rightarrow> nat" where
  "indexAtDepth nodes i = length (depthNodes (take i nodes) (depth (nodes ! i)))"

text \<open>
  The body of \<^verbatim>\<open>nodes.map((node) => ...)\<close> for the node at position \<open>i\<close>, with the margins of
  40 on every side, and the layout with its links.
\<close>

definition positionNode :: "real \<times> real \<Rightarrow> DFSNode list \<Rightarrow> nat \<Rightarrow> PositionedNode" where
  "positionNode dims nodes i =
     (let node = nodes ! i;
          maxDepth = Max (depth ` set nodes);
          innerWidth = fst dims - 40 - 40;
          innerHeight = snd dims - 40 - 40;
          nodeRadius = 20;
          minSpacing = nodeRadius * 3;
          nodeIndex = real (indexAtDepth nodes i);
          totalNodesAtDepth = real (length (depthNodes nodes (depth node)));
          requiredWidth = totalNodesAtDepth * minSpacing;
          availableWidth = max innerWidth requiredWidth;
          x' = (if totalNodesAtDepth = 1 then innerWidth / 2
                else (let actualSpacing = max minSpacing (availableWidth / totalNodesAtDepth)
                      in nodeIndex * actualSpacing + actualSpacing / 2 - availableWidth / 2
                         + innerWidth / 2));
          y' = (real_of_int (depth node) / real_of_int (max maxDepth 1)) * innerHeight
      in \<lparr>dfsElement = dfsElement node, depth = depth node, parent = parent node,
          nodeId = nodeId node, posX = x' + 40, posY = y' + 40\<rparr>)"

definition createDFSLayout ::
  "(int \<times> int) option \<Rightarrow> Connection list \<Rightarrow> DFSNode list \<Rightarrow>
     PositionedNode list \<times> (PositionedNode \<times> PositionedNode) list" where
  "createDFSLayout svg conns nodes =
     (if length nodes = 0 then ([], [])
      else
        let positionedNodes = map (positionNode (getDimensions svg) nodes) [0..<length nodes];
            links = List.map_filter
              (\<lambda>conn.
                 case (find (\<lambda>n. nodeId n = connParent conn) positionedNodes,
                       find (\<lambda>n. nodeId n = connChild conn) positionedNodes) of
                   (Some parentNode, Some childNode) \<Rightarrow> Some (parentNode, childNode)
                 | _ \<Rightarrow> None)
              conns
        in (positionedNodes, links))"

text \<open>
  \<^verbatim>\<open>renderTree(data)\<close> of \<^verbatim>\<open>StandardTreePage.tsx\<close>, as far as it lays the recipe tree out. The
  hierarchy \<^verbatim>\<open>d3.hierarchy(data, (d) => d.recipes)\<close> is the recipe tree itself, and
  \<^verbatim>\<open>root.descendants()\<close> are its nodes. The positions are assigned by the tree layout of the d3
  library, which is not part of the repository: \<open>treeLayout\<close> stands for it, as a function of
  the configuration that the chained calls \<^verbatim>\<open>.size(...).nodeSize(...).separation(...)\<close> build
  and of the hierarchy, giving \<open>(x, y)\<close> for every node in the order of \<^verbatim>\<open>root.each\<close>.
\<close>

record TreeConfig =
  layoutSize :: "real \<times> real"
  layoutNodeSize :: "real \<times> real"
  separationSiblings :: real
  separationOthers :: real

type_synonym TreeLayout = "TreeConfig \<Rightarrow> RecipeNode \<Rightarrow> (real \<times> real) list"

text \<open>
  The bounding box \<^verbatim>\<open>minX, maxX, minY, maxY\<close> accumulated by \<^verbatim>\<open>root.each\<close>. It starts at
  \<^verbatim>\<open>Infinity, -Infinity, Infinity, -Infinity\<close>, which is \<open>None\<close> here: the first node replaces all
  four bounds.
\<close>

fun growBounds ::
  "real \<times> real \<Rightarrow> (real \<times> real \<times> real \<times> real) option \<Rightarrow> (real \<times> real \<times> real \<times> real) option" where
  "growBounds (x', y') None = Some (x', x', y', y')"
| "growBounds (x', y') (Some (minX, maxX, minY, maxY)) =
     Some (min minX x', max maxX x', min minY y', max maxY y')"

definition treeBounds :: "(real \<times> real) list \<Rightarrow> (real \<times> real \<times> real \<times> real) option" where
  "treeBounds positions = fold growBounds positions None"

text \<open>
  What \<^verbatim>\<open>renderTree\<close> leaves in the container: every node at \<^verbatim>\<open>translate(d.y, d.x)\<close>, the circle
  radius, and the initial zoom transform \<^verbatim>\<open>translate(width / 2 - centerY, height / 2 - centerX)\<close>
  with scale 0.8 (not a number, \<open>None\<close>, if no node had been positioned). The function returns
  at once when there is no container or no data; otherwise it first removes whatever the
  container held, so the previous drawing \<open>drawn\<close> is replaced.
\<close>

record TreeDrawing =
  nodeTranslate :: "(real \<times> real) list"
  circleRadius :: real
  zoomTransform :: "(real \<times> real \<times> real) option"

definition renderTree ::
  "TreeLayout \<Rightarrow> (int \<times> int) option \<Rightarrow> RecipeNode option \<Rightarrow> TreeDrawing option \<Rightarrow>
     TreeDrawing option" where
  "renderTree treeLayout svg data drawn =
     (case (svg, data) of
        (Some client, Some d) \<Rightarrow>
          (let dims = getDimensions svg;
               innerWidth = fst dims - 120 - 120;
               innerHeight = snd dims - 50 - 50;
               nodeCount = real (length (nodes_of d));
               nodeSpacing = max 120 (180 - nodeCount * 0.5);
               nodeRadius = max 20 (30 - nodeCount * 0.05);
               positions = treeLayout
                 \<lparr>layoutSize = (innerHeight, innerWidth),
                  layoutNodeSize = (nodeSpacing, nodeSpacing * 1.5),
                  separationSiblings = 1, separationOthers = 1.5\<rparr> d;
               center = (case treeBounds positions of
                           None \<Rightarrow> None
                         | Some (minX, maxX, minY, maxY) \<Rightarrow>
                             Some ((maxX + minX) / 2, (maxY + minY) / 2))
           in Some \<lparr>nodeTranslate = map (\<lambda>(x', y'). (y', x')) positions,
                    circleRadius = nodeRadius,
                    zoomTransform =
                      (case center of
                         None \<Rightarrow> None
                       | Some (centerX, centerY) \<Rightarrow>
                           Some (fst dims / 2 - centerY, snd dims / 2 - centerX, 0.8))\<rparr>)
      | _ \<Rightarrow> drawn)"

subsection \<open>Vocabulary for the layout's properties\<close>

text \<open>
  The inner width and height of the container, the number of nodes on the level of the
  \<open>i\<close>-th node, and the width over which that level is spread.
\<close>

definition innerWidthOf :: "(int \<times> int) option \<Rightarrow> real" where
  "innerWidthOf svg = fst (getDimensions svg) - 80"

definition innerHeightOf :: "(int \<times> int) option \<Rightarrow> real" where
  "innerHeightOf svg = snd (getDimensions svg) - 80"

definition levelCount :: "DFSNode list \<Rightarrow> nat \<Rightarrow> nat" where
  "levelCount nodes i = length (depthNodes nodes (depth (nodes ! i)))"

definition levelWidth :: "(int \<times> int) option \<Rightarrow> DFSNode list \<Rightarrow> nat \<Rightarrow> real" where
  "levelWidth svg nodes i = max (innerWidthOf svg) (real (levelCount nodes i) * 60)"

text \<open>
  The coordinates of a positioned node, and a positioned node read as a plain node again.
\<close>

definition coordinates :: "PositionedNode \<Rightarrow> real \<times> real" where
  "coordinates p = (posX p, posY p)"

definition plainNode :: "PositionedNode \<Rightarrow> DFSNode" where
  "plainNode p = \<lparr>dfsElement = dfsElement p, depth = depth p, parent = parent p, nodeId = nodeId p\<rparr>"

text \<open>
  A stand-in for the library layout (the nodes in a column, one node size apart), a recipe
  tree, and a drawing left over from an earlier render.
\<close>

definition columnLayout :: TreeLayout where
  "columnLayout cfg t =
     map (\<lambda>i. (real i * fst (layoutNodeSize cfg), 0)) [0..<length (nodes_of t)]"

definition mudRecipe :: RecipeNode where
  "mudRecipe = RecipeNode ''Mud'' [RecipeNode ''Water'' [], RecipeNode ''Earth'' []]"

definition staleDrawing :: TreeDrawing where
  "staleDrawing = \<lparr>nodeTranslate = [(1, 1)], circleRadius = 30, zoomTransform = None\<rparr>"

text \<open>
  A trace of three nodes on two levels, and the same trace with other identifiers.
\<close>

definition twoLevels :: "DFSNode list" where
  "twoLevels =
     [\<lparr>dfsElement = ''Mud'', depth = 0, parent = Null, nodeId = ''a''\<rparr>,
      \<lparr>dfsElement = ''Water'', depth = 1, parent = Parent ''Mud'', nodeId = ''b''\<rparr>,
      \<lparr>dfsElement = ''Earth'', depth = 1, parent = Parent ''Mud'', nodeId = ''c''\<rparr>]"

definition twoLevelsAgain :: "DFSNode list" where
  "twoLevelsAgain =
     [\<lparr>dfsElement = ''Mud'', depth = 0, parent = Null, nodeId = ''d''\<rparr>,
      \<lparr>dfsElement = ''Water'', depth = 1, parent = Parent ''Mud'', nodeId = ''e''\<rparr>,
      \<lparr>dfsElement = ''Earth'', depth = 1, parent = Parent ''Mud'', nodeId = ''f''\<rparr>]"

section \<open>Verified properties\<close>

subsection \<open>Recipe extractor\<close>

lemma self_in_nodes_of: "n \<in> set (nodes_of n)"
  by (cases n) simp

lemma child_nodes_of: "c \<in> set (recipes n) \<Longrightarrow> set (nodes_of c) \<subseteq> set (nodes_of n)"
  by (cases n) auto

lemma nodes_of_trans: "m \<in> set (nodes_of n) \<Longrightarrow> set (nodes_of m) \<subseteq> set (nodes_of n)"
proof (induction n arbitrary: m)
  case (RecipeNode e rs)
  show ?case
  proof (cases "m = RecipeNode e rs")
    case True then show ?thesis by simp
  next
    case False
    with RecipeNode.prems obtain c where c: "c \<in> set rs" "m \<in> set (nodes_of c)" by auto
    from RecipeNode.IH[OF c] have "set (nodes_of m) \<subseteq> set (nodes_of c)" .
    with c(1) show ?thesis by auto
  qed
qed

lemma bottom_up_mono:
  "bottom_up seen T out \<Longrightarrow> T \<subseteq> T' \<Longrightarrow> bottom_up seen T' out"
  by (induction out arbitrary: seen) auto

lemma bottom_up_append:
  "bottom_up seen T (xs @ ys) \<longleftrightarrow>
     bottom_up seen T xs \<and> bottom_up (seen \<union> result ` set xs) T ys"
  by (induction xs arbitrary: seen) (auto simp: insert_commute Un_commute)

lemma extract_invariant:
  "extractRecipes n v = (out, v') \<Longrightarrow>
     v' = v \<union> result ` set out \<and> bottom_up v (set (nodes_of n)) out \<and>
     (recipes n \<noteq> [] \<longrightarrow> element n \<in> v')"
  "extractChildren cs v = (out, v') \<Longrightarrow>
     v' = v \<union> result ` set out \<and> bottom_up v (\<Union>c\<in>set cs. set (nodes_of c)) out \<and>
     (\<forall>c\<in>set cs. recipes c \<noteq> [] \<longrightarrow> element c \<in> v')"
proof (induction n v and cs v arbitrary: out v' and out v' rule: extractRecipes_extractChildren.induct)
  case (1 e rs visited)
  show ?case
  proof (cases "rs = []")
    case True
    with "1.prems" show ?thesis by simp
  next
    case False
    obtain acc w where ch: "extractChildren rs visited = (acc, w)" by fastforce
    from "1.IH"[OF False ch]
    have w: "w = visited \<union> result ` set acc"
      and bu: "bottom_up visited (\<Union>c\<in>set rs. set (nodes_of c)) acc"
      and el: "\<forall>c\<in>set rs. recipes c \<noteq> [] \<longrightarrow> element c \<in> w" by auto
    have bu': "bottom_up visited (set (nodes_of (RecipeNode e rs))) acc"
      by (rule bottom_up_mono[OF bu]) auto
    show ?thesis
    proof (cases "e \<in> w")
      case True
      with False ch "1.prems" have "out = acc" "v' = w" by auto
      with w bu' True show ?thesis by simp
    next
      case notin: False
      with False ch "1.prems"
      have out: "out = acc @ [\<lparr>result = e, ingredients = map element rs\<rparr>]"
        and v': "v' = insert e w" by auto
      have st: "statement_of (RecipeNode e rs) \<lparr>result = e, ingredients = map element rs\<rparr>"
        using False by (simp add: statement_of_def)
      have "bottom_up w (set (nodes_of (RecipeNode e rs))) [\<lparr>result = e, ingredients = map element rs\<rparr>]"
        using st el notin by (auto intro!: bexI[of _ "RecipeNode e rs"])
      with bu' w have "bottom_up visited (set (nodes_of (RecipeNode e rs))) out"
        unfolding out bottom_up_append by simp
      with out v' w show ?thesis by auto
    qed
  qed
next
  case (2 visited)
  then show ?case by simp
next
  case (3 child rest visited)
  obtain r1 v1 where a: "extractRecipes child visited = (r1, v1)" by fastforce
  obtain r2 v2 where b: "extractChildren rest v1 = (r2, v2)" by fastforce
  from "3.prems" a b have out: "out = r1 @ r2" and v': "v' = v2" by auto
  from "3.IH"(1)[OF a]
  have v1: "v1 = visited \<union> result ` set r1"
    and bu1: "bottom_up visited (set (nodes_of child)) r1"
    and e1: "recipes child \<noteq> [] \<longrightarrow> element child \<in> v1" by auto
  from "3.IH"(2)[OF a[symmetric] b]
  have v2: "v2 = v1 \<union> result ` set r2"
    and bu2: "bottom_up v1 (\<Union>c\<in>set rest. set (nodes_of c)) r2"
    and e2: "\<forall>c\<in>set rest. recipes c \<noteq> [] \<longrightarrow> element c \<in> v2" by auto
  have "bottom_up visited (\<Union>c\<in>set (child # rest). set (nodes_of c)) r1"
    by (rule bottom_up_mono[OF bu1]) auto
  moreover have "bottom_up (visited \<union> result ` set r1) (\<Union>c\<in>set (child # rest). set (nodes_of c)) r2"
    using bottom_up_mono[OF bu2] v1 by auto
  ultimately have "bottom_up visited (\<Union>c\<in>set (child # rest). set (nodes_of c)) out"
    unfolding out bottom_up_append by simp
  moreover have "v' = visited \<union> result ` set out" using v' v2 v1 out by auto
  moreover have "\<forall>c\<in>set (child # rest). recipes c \<noteq> [] \<longrightarrow> element c \<in> v'"
    using e1 e2 v2 v' by auto
  ultimately show ?case by simp
qed

lemma bottom_up_distinct:
  "bottom_up seen T out \<Longrightarrow> distinct (map result out) \<and> result ` set out \<inter> seen = {}"
  by (induction out arbitrary: seen) auto

lemma bottom_up_nth:
  "bottom_up seen T out \<Longrightarrow> i < length out \<Longrightarrow>
     \<exists>m\<in>T. statement_of m (out ! i) \<and>
       (\<forall>c\<in>set (recipes m). recipes c \<noteq> [] \<longrightarrow> element c \<in> seen \<union> result ` set (take i out))"
proof (induction out arbitrary: seen i)
  case Nil then show ?case by simp
next
  case (Cons r rs)
  show ?case
  proof (cases i)
    case 0
    with Cons.prems show ?thesis by auto
  next
    case (Suc k)
    with Cons.prems have "bottom_up (insert (result r) seen) T rs" "k < length rs" by auto
    from Cons.IH[OF this] Suc show ?thesis by auto
  qed
qed

lemma allRecipes_bottom_up: "bottom_up {} (set (nodes_of t)) (allRecipes t)"
proof -
  obtain out v' where e: "extractRecipes t {} = (out, v')" by fastforce
  from extract_invariant(1)[OF e] e show ?thesis by (simp add: allRecipes_def)
qed

lemma in_take_nth: "x \<in> set (take i xs) \<Longrightarrow> \<exists>j<i. j < length xs \<and> xs ! j = x"
  by (auto simp: in_set_conv_nth)

text \<open>
  Claim C2 (as amended). For every recipe tree, the list returned by \<open>extractRecipes\<close>
  has pairwise distinct results; a root without recipes yields the empty list; every entry
  is the statement of a node with non-empty recipes, its ingredients being the elements of
  that node's recipes in order; and every ingredient sub-tree of that node which itself has
  recipes has its result at a strictly earlier position. When no element occurs both as a
  leaf and as an expanded node, every result comes after the recipes of all its ingredients
  that are results of the output.
\<close>

theorem extractRecipes_bottom_up_dedup:
  "distinct (map result (allRecipes t)) \<and>
   allRecipes (RecipeNode e []) = [] \<and>
   (\<forall>i<length (allRecipes t). \<exists>m\<in>set (nodes_of t). statement_of m (allRecipes t ! i) \<and>
      (\<forall>c\<in>set (recipes m). recipes c \<noteq> [] \<longrightarrow>
         (\<exists>j<i. result (allRecipes t ! j) = element c))) \<and>
   (uniformly_expanded t \<longrightarrow> ingredients_first (allRecipes t))"
proof -
  let ?out = "allRecipes t"
  have bu: "bottom_up {} (set (nodes_of t)) ?out" by (rule allRecipes_bottom_up)
  have d: "distinct (map result ?out)" using bottom_up_distinct[OF bu] by simp
  have leaf: "allRecipes (RecipeNode e []) = []" by (simp add: allRecipes_def)
  have nth: "\<exists>m\<in>set (nodes_of t). statement_of m (?out ! i) \<and>
      (\<forall>c\<in>set (recipes m). recipes c \<noteq> [] \<longrightarrow> (\<exists>j<i. result (?out ! j) = element c))"
    if i: "i < length ?out" for i
  proof -
    from bottom_up_nth[OF bu i] obtain m where m: "m \<in> set (nodes_of t)"
      "statement_of m (?out ! i)"
      "\<forall>c\<in>set (recipes m). recipes c \<noteq> [] \<longrightarrow> element c \<in> result ` set (take i ?out)"
      by auto
    have "\<exists>j<i. result (?out ! j) = element c" if "c \<in> set (recipes m)" "recipes c \<noteq> []" for c
    proof -
      from m(3) that obtain r where r: "r \<in> set (take i ?out)" "result r = element c" by auto
      from in_take_nth[OF r(1)] r(2) show ?thesis by auto
    qed
    with m(1,2) show ?thesis by blast
  qed
  have first: "ingredients_first ?out" if ue: "uniformly_expanded t"
    unfolding ingredients_first_def
  proof (intro allI impI)
    fix i j assume i: "i < length ?out" and j: "j < length ?out"
      and g: "result (?out ! j) \<in> set (ingredients (?out ! i))"
    from nth[OF i] obtain m where m: "m \<in> set (nodes_of t)" "statement_of m (?out ! i)"
      "\<forall>c\<in>set (recipes m). recipes c \<noteq> [] \<longrightarrow> (\<exists>k<i. result (?out ! k) = element c)" by blast
    from nth[OF j] obtain m' where m': "m' \<in> set (nodes_of t)" "statement_of m' (?out ! j)" by blast
    from g m(2) obtain c where c: "c \<in> set (recipes m)" "element c = result (?out ! j)"
      by (auto simp: statement_of_def)
    have "c \<in> set (nodes_of t)"
      using nodes_of_trans[OF m(1)] child_nodes_of[OF c(1)] self_in_nodes_of[of c] by blast
    moreover have "element m' = element c" "recipes m' \<noteq> []"
      using m'(2) c(2) by (auto simp: statement_of_def)
    ultimately have "recipes c \<noteq> []" using ue m'(1) unfolding uniformly_expanded_def by blast
    with m(3) c obtain k where k: "k < i" "result (?out ! k) = result (?out ! j)" by auto
    have kl: "k < length ?out" using k(1) i by simp
    have "map result ?out ! k = map result ?out ! j" using k(2) kl j by simp
    then have "k = j"
      using nth_eq_iff_index_eq[OF d, of k j] kl j by simp
    with k(1) show "j < i" by simp
  qed
  from d leaf nth first show ?thesis by blast
qed

text \<open>
  The ordering fails as the specification states it when an element is an unexpanded leaf
  under one node and expanded elsewhere: in \<open>R[X[Y], Y[Z]]\<close> the statement of \<open>X\<close>, which
  consumes \<open>Y\<close>, is emitted before the statement of \<open>Y\<close>.
\<close>

theorem extractRecipes_ingredients_first_counterexample:
  "\<not> ingredients_first (allRecipes
      (RecipeNode ''R'' [RecipeNode ''X'' [RecipeNode ''Y'' []],
                         RecipeNode ''Y'' [RecipeNode ''Z'' []]]))"
proof
  assume a: "ingredients_first (allRecipes
      (RecipeNode ''R'' [RecipeNode ''X'' [RecipeNode ''Y'' []],
                         RecipeNode ''Y'' [RecipeNode ''Z'' []]]))"
  have v: "allRecipes
      (RecipeNode ''R'' [RecipeNode ''X'' [RecipeNode ''Y'' []],
                         RecipeNode ''Y'' [RecipeNode ''Z'' []]]) =
     [\<lparr>result = ''X'', ingredients = [''Y'']\<rparr>,
      \<lparr>result = ''Y'', ingredients = [''Z'']\<rparr>,
      \<lparr>result = ''R'', ingredients = [''X'', ''Y'']\<rparr>]"
    by (simp add: allRecipes_def)
  from a have "\<forall>i<3. \<forall>j<3. result ([\<lparr>result = ''X'', ingredients = [''Y'']\<rparr>,
      \<lparr>result = ''Y'', ingredients = [''Z'']\<rparr>,
      \<lparr>result = ''R'', ingredients = [''X'', ''Y'']\<rparr>] ! j) \<in> set (ingredients ([\<lparr>result = ''X'', ingredients = [''Y'']\<rparr>,
      \<lparr>result = ''Y'', ingredients = [''Z'']\<rparr>,
      \<lparr>result = ''R'', ingredients = [''X'', ''Y'']\<rparr>] ! i)) \<longrightarrow> j < i"
    unfolding v ingredients_first_def by simp
  from this[THEN spec, of 0, simplified, THEN spec, of 1] show False by simp
qed

text \<open>The theorem at the tree \<open>Mud[Water, Earth]\<close>, which is uniformly expanded.\<close>

theorem extractRecipes_bottom_up_dedup_witness:
  "uniformly_expanded (RecipeNode ''Mud'' [RecipeNode ''Water'' [], RecipeNode ''Earth'' []]) \<and>
   ingredients_first (allRecipes (RecipeNode ''Mud'' [RecipeNode ''Water'' [], RecipeNode ''Earth'' []])) \<and>
   allRecipes (RecipeNode ''Mud'' [RecipeNode ''Water'' [], RecipeNode ''Earth'' []]) =
     [\<lparr>result = ''Mud'', ingredients = [''Water'', ''Earth'']\<rparr>]"
proof -
  have u: "uniformly_expanded (RecipeNode ''Mud'' [RecipeNode ''Water'' [], RecipeNode ''Earth'' []])"
    by (simp add: uniformly_expanded_def)
  have v: "allRecipes (RecipeNode ''Mud'' [RecipeNode ''Water'' [], RecipeNode ''Earth'' []]) =
     [\<lparr>result = ''Mud'', ingredients = [''Water'', ''Earth'']\<rparr>]"
    by (simp add: allRecipes_def)
  from u v extractRecipes_bottom_up_dedup[of "RecipeNode ''Mud'' [RecipeNode ''Water'' [], RecipeNode ''Earth'' []]"]
  show ?thesis by blast
qed

subsection \<open>Bidirectional classifier\<close>

lemma validIngredients_Nil [simp]: "validIngredients [] = []"
  by (simp add: validIngredients_def)

lemma processNode_unfold:
  "processNode tg (TreeNode el rs) p st =
     (case el of
        None \<Rightarrow> st
      | Some e \<Rightarrow>
          if e = [] then st
          else if validIngredients rs = [] then touchNode tg e st
          else processEach tg (validIngredients rs) p rs (enterNode tg e (validIngredients rs) p st))"
proof (cases el)
  case None
  then show ?thesis by simp
next
  case (Some e)
  define st1 where "st1 = (if e \<in> set basicElements then st\<lparr>forward := insert e (forward st)\<rparr> else st)"
  define st2 where "st2 = (if e = tg then st1\<lparr>backward := insert e (backward st1)\<rparr> else st1)"
  define st3 where "st3 = st2\<lparr>connections := (connections st2)(e \<mapsto> validIngredients rs)\<rparr>"
  define st4 where "st4 =
    (if p \<or> e = tg then st3\<lparr>backward := insert e (backward st3) \<union> set (validIngredients rs)\<rparr>
     else st3\<lparr>forward := insert e (forward st3) \<union> set (validIngredients rs)\<rparr>)"
  have code: "processNode tg (TreeNode el rs) p st =
    (if e = [] then st
     else if rs \<noteq> [] then
       (if validIngredients rs \<noteq> [] then processEach tg (validIngredients rs) p rs st4 else st2)
     else if e = tg then st2\<lparr>backward := insert e (backward st2)\<rparr>
     else if e \<in> set basicElements then st2\<lparr>forward := insert e (forward st2)\<rparr>
     else st2)"
    using Some by (simp add: Let_def st1_def st2_def st3_def st4_def)
  have touch: "st2 = touchNode tg e st"
    "e = tg \<Longrightarrow> st2\<lparr>backward := insert e (backward st2)\<rparr> = touchNode tg e st"
    "e \<in> set basicElements \<Longrightarrow> st2\<lparr>forward := insert e (forward st2)\<rparr> = touchNode tg e st"
    by (auto simp: st1_def st2_def touchNode_def intro!: BidirectionalState.equality)
  have enter: "st4 = enterNode tg e (validIngredients rs) p st"
    by (auto simp: st1_def st2_def st3_def st4_def enterNode_def intro!: BidirectionalState.equality)
  show ?thesis
    unfolding code using Some touch enter by auto
qed

lemma forwardEach_fields:
  "meeting (forwardEach fd ks st) = meeting st"
  "backward (forwardEach fd ks st) = backward st"
  "forward (forwardEach fd ks st) = forward st \<union> set ks"
  by (induction fd ks st rule: forwardEach.induct; simp add: Let_def split: option.splits)+

lemma backwardEach_fields:
  "meeting (backwardEach bd ks st) = meeting st"
  "forward (backwardEach bd ks st) = forward st"
  "backward (backwardEach bd ks st) = backward st \<union> set ks"
  by (induction bd ks st rule: backwardEach.induct; simp add: Let_def split: option.splits)+

lemma backwardEach_connections:
  "connections (backwardEach bd ks st) e =
     (if e \<in> set ks
      then (case usableRecipe (property bd e) of Some r \<Rightarrow> Some r | None \<Rightarrow> connections st e)
      else connections st e)"
  by (induction bd ks st rule: backwardEach.induct) (auto simp: Let_def split: option.splits)

lemma forwardEach_connections:
  "connections (forwardEach fd ks st) e =
     (if e \<in> set ks
      then (case usableRecipe (property fd e) of Some r \<Rightarrow> Some r | None \<Rightarrow> connections st e)
      else connections st e)"
  by (induction fd ks st rule: forwardEach.induct) (auto simp: Let_def split: option.splits)

lemma processEach_meeting:
  "(\<And>c p st. c \<in> set cs \<Longrightarrow> meeting (processNode tg c p st) = meeting st) \<Longrightarrow>
   meeting (processEach tg ings q cs st) = meeting st"
  by (induction cs arbitrary: st) (simp_all add: Let_def)

lemma processNode_meeting: "meeting (processNode tg n p st) = meeting st"
proof (induction n arbitrary: p st)
  case (TreeNode el rs)
  show ?case
    unfolding processNode_unfold
    by (auto simp: touchNode_def enterNode_def processEach_meeting[OF TreeNode.IH] split: option.splits)
qed

lemma processEach_grows:
  "(\<And>c p st. c \<in> set cs \<Longrightarrow>
      forward st \<subseteq> forward (processNode tg c p st) \<and> backward st \<subseteq> backward (processNode tg c p st)) \<Longrightarrow>
   forward st \<subseteq> forward (processEach tg ings q cs st) \<and>
   backward st \<subseteq> backward (processEach tg ings q cs st)"
proof (induction cs arbitrary: st)
  case Nil then show ?case by simp
next
  case (Cons c cs)
  let ?s = "processNode tg c (q \<and> arrayIncludes ings (nodeElement c) \<and>
             length (findPathToTarget c tg []) > 0) st"
  have a: "forward st \<subseteq> forward ?s \<and> backward st \<subseteq> backward ?s"
    using Cons.prems[of c] by simp
  have b: "forward ?s \<subseteq> forward (processEach tg ings q cs ?s) \<and>
           backward ?s \<subseteq> backward (processEach tg ings q cs ?s)"
    by (rule Cons.IH) (use Cons.prems in simp)
  from a b show ?case by (simp add: Let_def) blast
qed

lemma processNode_grows:
  "forward st \<subseteq> forward (processNode tg n p st) \<and> backward st \<subseteq> backward (processNode tg n p st)"
proof (induction n arbitrary: p st)
  case (TreeNode el rs)
  show ?case
  proof (cases "\<exists>e. el = Some e \<and> e \<noteq> [] \<and> validIngredients rs \<noteq> []")
    case False
    then show ?thesis unfolding processNode_unfold
      by (auto simp: touchNode_def split: option.splits)
  next
    case True
    then obtain e where e: "el = Some e" "e \<noteq> []" "validIngredients rs \<noteq> []" by blast
    let ?s = "enterNode tg e (validIngredients rs) p st"
    have "forward ?s \<subseteq> forward (processEach tg (validIngredients rs) p rs ?s) \<and>
          backward ?s \<subseteq> backward (processEach tg (validIngredients rs) p rs ?s)"
      by (rule processEach_grows) (rule TreeNode.IH)
    moreover have "forward st \<subseteq> forward ?s" "backward st \<subseteq> backward ?s"
      by (auto simp: enterNode_def)
    ultimately show ?thesis unfolding processNode_unfold using e by auto
  qed
qed

lemma processRecipeData_Some:
  assumes "processRecipeData tg d = Some st"
  shows "truthy (nodeElement (dataNode d))"
  using assms by (auto simp: processRecipeData_def split: if_splits)

text \<open>
  Claim C1 (as amended). Whenever \<open>processRecipeData\<close> produces a state, its meeting set
  is the intersection of the forward and backward sets together with the elements of the
  explicit meeting-point list (none in implicit mode). So the intersection is always
  contained in the meeting set, and the two are equal for a plain recipe tree and for an
  explicit payload whose listed meeting points were all visited by both searches.
\<close>

theorem meeting_is_intersection_plus_explicit:
  assumes "processRecipeData tg d = Some st"
  shows "meeting st = (forward st \<inter> backward st) \<union> explicitMeeting d \<and>
         forward st \<inter> backward st \<subseteq> meeting st \<and>
         (explicitMeeting d \<subseteq> forward st \<inter> backward st \<longrightarrow> meeting_is_intersection st) \<and>
         (\<not> hasExplicitData d \<longrightarrow> meeting_is_intersection st)"
proof -
  have m: "meeting st = (forward st \<inter> backward st) \<union> explicitMeeting d"
  proof (cases "hasExplicitData d")
    case True
    with assms show ?thesis
      by (auto simp: processRecipeData_def explicitMeeting_def Let_def
            forwardEach_fields backwardEach_fields split: if_splits)
  next
    case False
    with assms show ?thesis
      by (auto simp: processRecipeData_def explicitMeeting_def Let_def
            buildBidirectionalFromRecipeTree_def processNode_meeting split: if_splits)
  qed
  moreover have "explicitMeeting d = {}" if "\<not> hasExplicitData d"
    using that by (simp add: explicitMeeting_def)
  ultimately show ?thesis by (auto simp: meeting_is_intersection_def)
qed

text \<open>
  Claim C4. Whenever \<open>processRecipeData\<close> produces a state, from an explicit payload or from
  a plain tree, Water, Fire, Earth and Air are in its forward set and the target element
  is in its backward set.
\<close>

theorem base_in_forward_target_in_backward:
  assumes "processRecipeData tg d = Some st"
  shows "{''Water'', ''Fire'', ''Earth'', ''Air''} \<subseteq> forward st \<and> tg \<in> backward st"
proof (cases "hasExplicitData d")
  case True
  with assms show ?thesis
    by (auto simp: processRecipeData_def Let_def basicElements_def
          forwardEach_fields backwardEach_fields split: if_splits)
next
  case False
  let ?st0 = "\<lparr>forward = set basicElements, backward = {tg}, meeting = {}, connections = Map.empty\<rparr>"
  from processNode_grows[of ?st0 tg "dataNode d"]
  have "\<And>p. set basicElements \<subseteq> forward (processNode tg (dataNode d) p ?st0)"
       "\<And>p. tg \<in> backward (processNode tg (dataNode d) p ?st0)" by auto
  with False assms show ?thesis
    by (auto simp: processRecipeData_def Let_def buildBidirectionalFromRecipeTree_def
          basicElements_def split: if_splits)
qed

lemma usableRecipe_key:
  "usableRecipe (property obj e) = Some r \<Longrightarrow> e \<in> set (map fst obj)"
  by (auto simp: property_def usableRecipe_def split: option.splits dest!: map_of_SomeD
        intro: rev_image_eqI)

text \<open>
  Claim C10. In explicit mode, when an element has a non-empty \<^verbatim>\<open>Recipe\<close> list in the forward
  map and in the backward map, its connection is the backward map's list.
\<close>

theorem backward_recipe_overwrites_forward:
  assumes "processRecipeData tg d = Some st"
    and "hasExplicitData d"
    and "usableRecipe (property (orEmpty (orElse (forwardVisited d) (ForwardVisited d))) e) = Some rf"
    and "usableRecipe (property (orEmpty (orElse (backwardVisited d) (BackwardVisited d))) e) = Some rb"
  shows "connections st e = Some rb"
proof -
  let ?bd = "orEmpty (orElse (backwardVisited d) (BackwardVisited d))"
  have k: "e \<in> set (map fst ?bd)" by (rule usableRecipe_key[OF assms(4)])
  have "connections (backwardEach ?bd (map fst ?bd) s) e = Some rb" for s
    unfolding backwardEach_connections using k assms(4) by simp
  with assms(1,2) show ?thesis
    by (auto simp: processRecipeData_def Let_def split: if_splits)
qed

lemmas classify_eval = processRecipeData_def hasExplicitData_def orEmpty_def orElse_def
  property_def usableRecipe_def truthy_def basicElements_def Let_def

text \<open>
  Claim C5. The explicit payload \<^verbatim>\<open>forwardVisited = {Water: {}, Wood: {Recipe: [Water, Earth]}}\<close>,
  \<^verbatim>\<open>backwardVisited = {Wood: {}}\<close>, no meeting-point list, target \<open>Wood\<close> (the payload's own
  element is \<open>Wood\<close>, its recipes are arbitrary) is classified as
  forward \<open>{Water, Wood, Fire, Earth, Air}\<close>, backward \<open>{Wood}\<close>, meeting \<open>{Wood}\<close> and
  connections \<open>{Wood: [Water, Earth]}\<close>.
\<close>

theorem explicit_wood_scenario:
  "processRecipeData ''Wood''
     \<lparr>dataNode = TreeNode (Some ''Wood'') rs,
      forwardVisited = Some [(''Water'', Some (RecipeInfo None)),
                             (''Wood'', Some (RecipeInfo (Some [''Water'', ''Earth''])))],
      ForwardVisited = None,
      backwardVisited = Some [(''Wood'', Some (RecipeInfo None))],
      BackwardVisited = None,
      meetingPoints = None, MeetingPoints = None\<rparr> =
   Some \<lparr>forward = {''Water'', ''Wood'', ''Fire'', ''Earth'', ''Air''},
         backward = {''Wood''},
         meeting = {''Wood''},
         connections = [''Wood'' \<mapsto> [''Water'', ''Earth'']]\<rparr>"
  by (auto simp: classify_eval)

lemma advisoryPayload_result:
  "processRecipeData ''Wood'' advisoryPayload =
   Some \<lparr>forward = {''Water'', ''Wood'', ''Fire'', ''Earth'', ''Air''},
         backward = {''Wood''},
         meeting = {''Wood'', ''Mud''},
         connections = [''Wood'' \<mapsto> [''Water'', ''Earth'']]\<rparr>"
  by (auto simp: classify_eval advisoryPayload_def)

text \<open>
  The invariant fails as the specification states it: with the advisory list \<open>[Mud]\<close> the
  meeting set is \<open>{Wood, Mud}\<close> while forward and backward intersect in \<open>{Wood}\<close>.
\<close>

theorem meeting_is_intersection_counterexample:
  "processRecipeData ''Wood'' advisoryPayload \<noteq> None \<and>
   \<not> meeting_is_intersection (the (processRecipeData ''Wood'' advisoryPayload))"
  unfolding advisoryPayload_result by (auto simp: meeting_is_intersection_def)

lemma findPathChildren_prefix:
  assumes "\<And>c cp. c \<in> set cs \<Longrightarrow> findPathToTarget c tg cp =
     (if findPathToTarget c tg [] = [] then [] else cp @ findPathToTarget c tg [])"
  shows "findPathChildren cs tg cp =
     (if findPathChildren cs tg [] = [] then [] else cp @ findPathChildren cs tg [])"
  using assms
proof (induction cs)
  case Nil show ?case by simp
next
  case (Cons c cs)
  have c: "findPathToTarget c tg cp =
     (if findPathToTarget c tg [] = [] then [] else cp @ findPathToTarget c tg [])"
    using Cons.prems by simp
  have r: "findPathChildren cs tg cp =
     (if findPathChildren cs tg [] = [] then [] else cp @ findPathChildren cs tg [])"
    using Cons by simp
  show ?case
  proof (cases "findPathToTarget c tg [] = []")
    case True
    with c r show ?thesis by (simp add: Let_def)
  next
    case False
    with c show ?thesis by (simp add: Let_def)
  qed
qed

lemma findPath_prefix:
  "findPathToTarget n tg cp =
     (if findPathToTarget n tg [] = [] then [] else cp @ findPathToTarget n tg [])"
proof (induction n arbitrary: cp)
  case (TreeNode el rs)
  have ch: "findPathChildren rs tg cp' =
     (if findPathChildren rs tg [] = [] then [] else cp' @ findPathChildren rs tg [])" for cp'
    by (rule findPathChildren_prefix) (rule TreeNode.IH)
  show ?case
  proof (cases "\<exists>e. el = Some e \<and> e \<noteq> [] \<and> e \<noteq> tg \<and> rs \<noteq> []")
    case False
    then show ?thesis by (auto split: option.splits)
  next
    case True
    then obtain e where e: "el = Some e" "e \<noteq> []" "e \<noteq> tg" "rs \<noteq> []" by blast
    from ch[of "cp @ [e]"] ch[of "[e]"] e show ?thesis by simp
  qed
qed

lemma findPathChildren_empty_iff:
  "findPathChildren cs tg cp = [] \<longleftrightarrow> (\<forall>c\<in>set cs. \<not> reachesTarget tg c)"
proof (induction cs)
  case Nil show ?case by simp
next
  case (Cons c cs)
  have "findPathToTarget c tg cp = [] \<longleftrightarrow> findPathToTarget c tg [] = []"
    using findPath_prefix[of c tg cp] by simp
  with Cons show ?case by (simp add: Let_def reachesTarget_def)
qed

lemma reachesTarget_node:
  "reachesTarget tg (TreeNode el rs) \<longleftrightarrow>
     truthy el \<and> (el = Some tg \<or> (\<exists>c\<in>set rs. reachesTarget tg c))"
proof (cases el)
  case None then show ?thesis by (simp add: reachesTarget_def truthy_def)
next
  case (Some e)
  have "findPathChildren rs tg [e] \<noteq> [] \<longleftrightarrow> (\<exists>c\<in>set rs. reachesTarget tg c)"
    using findPathChildren_empty_iff[of rs tg "[e]"] by blast
  with Some show ?thesis
    by (cases "rs = []") (auto simp: reachesTarget_def truthy_def)
qed

lemma reachesTarget_truthy: "reachesTarget tg n \<Longrightarrow> truthy (nodeElement n)"
  by (cases n) (simp add: reachesTarget_node)

lemma walk_self: "truthy (nodeElement n) \<Longrightarrow> n \<in> set (walk n)"
  by (cases n) simp

lemma walk_truthy: "m \<in> set (walk n) \<Longrightarrow> truthy (nodeElement m)"
proof (induction n arbitrary: m)
  case (TreeNode el rs)
  then show ?case by (auto split: if_splits)
qed

lemma walk_child: "truthy (nodeElement n) \<Longrightarrow> c \<in> set (nodeRecipes n) \<Longrightarrow> set (walk c) \<subseteq> set (walk n)"
  by (cases n) auto

lemma walk_parent:
  "m \<in> set (walk n) \<Longrightarrow> m = n \<or> (\<exists>q\<in>set (walk n). m \<in> set (nodeRecipes q))"
proof (induction n arbitrary: m)
  case (TreeNode el rs)
  show ?case
  proof (cases "m = TreeNode el rs")
    case True then show ?thesis by simp
  next
    case False
    with TreeNode.prems obtain c where t: "truthy el" and c: "c \<in> set rs" "m \<in> set (walk c)"
      by (auto split: if_splits)
    from TreeNode.IH[OF c] have "m = c \<or> (\<exists>q\<in>set (walk c). m \<in> set (nodeRecipes q))" .
    then show ?thesis
    proof
      assume "m = c"
      with c t show ?thesis by (auto intro!: bexI[of _ "TreeNode el rs"])
    next
      assume "\<exists>q\<in>set (walk c). m \<in> set (nodeRecipes q)"
      then obtain q where q: "q \<in> set (walk c)" "m \<in> set (nodeRecipes q)" by blast
      from q(1) c(1) t have "q \<in> set (walk (TreeNode el rs))" by auto
      with q(2) show ?thesis by blast
    qed
  qed
qed

lemma targetPathChildren_props:
  assumes "\<And>c. c \<in> set cs \<Longrightarrow>
      map elementOf (targetPath c tg) = findPathToTarget c tg [] \<and>
      set (targetPath c tg) \<subseteq> {m \<in> set (walk c). reachesTarget tg m}"
  shows "map elementOf (targetPathChildren cs tg) = findPathChildren cs tg [] \<and>
      set (targetPathChildren cs tg) \<subseteq> (\<Union>c\<in>set cs. {m \<in> set (walk c). reachesTarget tg m})"
  using assms
proof (induction cs)
  case Nil show ?case by simp
next
  case (Cons c cs)
  have c: "map elementOf (targetPath c tg) = findPathToTarget c tg []"
    "set (targetPath c tg) \<subseteq> {m \<in> set (walk c). reachesTarget tg m}"
    using Cons.prems[of c] by simp_all
  have r: "map elementOf (targetPathChildren cs tg) = findPathChildren cs tg []"
     "set (targetPathChildren cs tg) \<subseteq> (\<Union>c\<in>set cs. {m \<in> set (walk c). reachesTarget tg m})"
    using Cons by simp_all
  show ?case
  proof (cases "targetPath c tg")
    case Nil
    with c(1) have "findPathToTarget c tg [] = []" by simp
    with Nil r show ?thesis by (auto simp: Let_def)
  next
    case (Cons p ps)
    with c(1) have "findPathToTarget c tg [] \<noteq> []" by auto
    with Cons c show ?thesis by (auto simp: Let_def)
  qed
qed

lemma targetPath_props:
  "map elementOf (targetPath n tg) = findPathToTarget n tg [] \<and>
   set (targetPath n tg) \<subseteq> {m \<in> set (walk n). reachesTarget tg m}"
proof (induction n)
  case (TreeNode el rs)
  have ch: "map elementOf (targetPathChildren rs tg) = findPathChildren rs tg []"
    "set (targetPathChildren rs tg) \<subseteq> (\<Union>c\<in>set rs. {m \<in> set (walk c). reachesTarget tg m})"
    using targetPathChildren_props[of rs tg] TreeNode.IH by simp_all
  show ?case
  proof (cases "truthy el")
    case False
    then show ?thesis by (auto simp: truthy_def split: option.splits)
  next
    case True
    then obtain e where e: "el = Some e" "e \<noteq> []" by (auto simp: truthy_def split: option.splits)
    show ?thesis
    proof (cases "e = tg")
      case True
      with e show ?thesis by (simp add: truthy_def elementOf_def reachesTarget_node)
    next
      case False
      have pre: "findPathChildren rs tg [e] =
        (if findPathChildren rs tg [] = [] then [] else [e] @ findPathChildren rs tg [])"
        by (rule findPathChildren_prefix) (rule findPath_prefix)
      show ?thesis
      proof (cases "targetPathChildren rs tg")
        case Nil
        with ch(1) have "findPathChildren rs tg [] = []" by simp
        with Nil e False pre show ?thesis by (simp add: truthy_def)
      next
        case (Cons p ps)
        with ch(1) have ne: "findPathChildren rs tg [] \<noteq> []" by auto
        then have "\<exists>c\<in>set rs. reachesTarget tg c"
          using findPathChildren_empty_iff[of rs tg "[]"] by blast
        then have rt: "reachesTarget tg (TreeNode el rs)"
          using e by (auto simp: reachesTarget_node truthy_def)
        have rsne: "rs \<noteq> []" using Cons by auto
        have "map elementOf (targetPath (TreeNode el rs) tg) = findPathToTarget (TreeNode el rs) tg []"
          using Cons e False pre ne ch(1) rsne by (simp add: truthy_def elementOf_def)
        moreover have "set (targetPath (TreeNode el rs) tg) \<subseteq>
            {m \<in> set (walk (TreeNode el rs)). reachesTarget tg m}"
          using Cons e False ch(2) rt by (auto simp: truthy_def)
        ultimately show ?thesis by blast
      qed
    qed
  qed
qed

lemma targetPath_head: "targetPath n tg \<noteq> [] \<Longrightarrow> n \<in> set (targetPath n tg)"
  by (cases n) (auto split: if_splits list.splits)

lemma forwardOf_simps [simp]:
  "forwardOf tg [] = {}"
  "forwardOf tg (n # ns) =
     (if elementOf n \<in> set basicElements then {elementOf n} else {}) \<union> forwardShare tg n \<union> forwardOf tg ns"
  "forwardOf tg (xs @ ys) = forwardOf tg xs \<union> forwardOf tg ys"
  by (auto simp: forwardOf_def)

lemma backwardOf_simps [simp]:
  "backwardOf tg [] = {}"
  "backwardOf tg (n # ns) =
     (if elementOf n = tg then {tg} else {}) \<union> backwardShare tg n \<union> backwardOf tg ns"
  "backwardOf tg (xs @ ys) = backwardOf tg xs \<union> backwardOf tg ys"
  by (auto simp: backwardOf_def)

lemma processNode_falsy: "\<not> truthy (nodeElement n) \<Longrightarrow> processNode tg n p st = st"
  by (cases n) (auto simp: truthy_def split: option.splits)

declare processNode.simps(1) [simp del]

lemma walk_falsy: "\<not> truthy (nodeElement n) \<Longrightarrow> walk n = []"
  by (cases n) simp

lemma validIngredients_Cons:
  "validIngredients (r # rs) =
     (if truthy (nodeElement r) then elementOf r # validIngredients rs else validIngredients rs)"
  by (auto simp: validIngredients_def elementOf_def truthy_def split: option.splits)

lemma validIngredients_empty: "validIngredients rs = [] \<longleftrightarrow> (\<forall>c\<in>set rs. \<not> truthy (nodeElement c))"
  by (induction rs) (auto simp: validIngredients_Cons)

lemma validIngredients_member:
  "c \<in> set rs \<Longrightarrow> truthy (nodeElement c) \<Longrightarrow> arrayIncludes (validIngredients rs) (nodeElement c)"
  by (induction rs)
     (auto simp: validIngredients_Cons arrayIncludes_def elementOf_def truthy_def split: option.splits)

lemma validIngredients_set:
  "set (validIngredients rs) = elementOf ` {c \<in> set rs. truthy (nodeElement c)}"
  by (induction rs) (auto simp: validIngredients_Cons)

lemma walk_children_empty: "validIngredients rs = [] \<Longrightarrow> concat (map walk rs) = []"
  by (auto simp: validIngredients_empty walk_falsy)

lemma processEach_sets:
  assumes IH: "\<And>c st. c \<in> set cs \<Longrightarrow>
      forward (processNode tg c (reachesTarget tg c) st) = forward st \<union> forwardOf tg (walk c) \<and>
      backward (processNode tg c (reachesTarget tg c) st) = backward st \<union> backwardOf tg (walk c)"
    and A: "\<And>c. c \<in> set cs \<Longrightarrow> truthy (nodeElement c) \<Longrightarrow> arrayIncludes ings (nodeElement c)"
    and B: "\<not> q \<Longrightarrow> \<forall>c\<in>set cs. \<not> reachesTarget tg c"
  shows "forward (processEach tg ings q cs st) = forward st \<union> forwardOf tg (concat (map walk cs)) \<and>
         backward (processEach tg ings q cs st) = backward st \<union> backwardOf tg (concat (map walk cs))"
  using assms
proof (induction cs arbitrary: st)
  case Nil show ?case by simp
next
  case (Cons c cs)
  let ?f = "q \<and> arrayIncludes ings (nodeElement c) \<and> length (findPathToTarget c tg []) > 0"
  have same: "processNode tg c ?f st = processNode tg c (reachesTarget tg c) st"
  proof (cases "truthy (nodeElement c)")
    case False then show ?thesis by (simp add: processNode_falsy)
  next
    case True
    then have "arrayIncludes ings (nodeElement c)" using Cons.prems(2)[of c] by simp
    moreover have "\<not> q \<Longrightarrow> \<not> reachesTarget tg c" using Cons.prems(3) by simp
    ultimately have "?f = reachesTarget tg c" by (auto simp: reachesTarget_def)
    then show ?thesis by simp
  qed
  let ?s = "processNode tg c (reachesTarget tg c) st"
  have h: "forward ?s = forward st \<union> forwardOf tg (walk c)"
          "backward ?s = backward st \<union> backwardOf tg (walk c)"
    using Cons.prems(1)[of c st] by simp_all
  have r: "forward (processEach tg ings q cs ?s) = forward ?s \<union> forwardOf tg (concat (map walk cs)) \<and>
         backward (processEach tg ings q cs ?s) = backward ?s \<union> backwardOf tg (concat (map walk cs))"
    by (rule Cons.IH) (use Cons.prems in auto)
  show ?case using same h r by (simp add: Let_def Un_assoc)
qed

lemma processNode_sets:
  "forward (processNode tg n (reachesTarget tg n) st) = forward st \<union> forwardOf tg (walk n) \<and>
   backward (processNode tg n (reachesTarget tg n) st) = backward st \<union> backwardOf tg (walk n)"
proof (induction n arbitrary: st)
  case (TreeNode el rs)
  let ?n = "TreeNode el rs"
  show ?case
  proof (cases "truthy el")
    case False
    then show ?thesis by (simp add: processNode_falsy)
  next
    case True
    then obtain e where e: "el = Some e" "e \<noteq> []" by (auto simp: truthy_def split: option.splits)
    have eo: "elementOf ?n = e" using e by (simp add: elementOf_def)
    have io: "ingredientsOf ?n = validIngredients rs" by (simp add: ingredientsOf_def)
    show ?thesis
    proof (cases "validIngredients rs = []")
      case empty: True
      have "processNode tg ?n (reachesTarget tg ?n) st = touchNode tg e st"
        unfolding processNode_unfold using e empty by simp
      moreover have "walk ?n = [?n]" using True walk_children_empty[OF empty] by simp
      ultimately show ?thesis
        using eo io empty by (auto simp: touchNode_def forwardShare_def backwardShare_def)
    next
      case nonempty: False
      let ?p = "reachesTarget tg ?n"
      let ?s = "enterNode tg e (validIngredients rs) ?p st"
      have tgp: "e = tg \<Longrightarrow> ?p" using e by (simp add: reachesTarget_node truthy_def)
      have B: "\<not> ?p \<Longrightarrow> \<forall>c\<in>set rs. \<not> reachesTarget tg c"
        using True by (auto simp: reachesTarget_node)
      have ch: "forward (processEach tg (validIngredients rs) ?p rs ?s) =
                  forward ?s \<union> forwardOf tg (concat (map walk rs)) \<and>
                backward (processEach tg (validIngredients rs) ?p rs ?s) =
                  backward ?s \<union> backwardOf tg (concat (map walk rs))"
        by (rule processEach_sets) (use TreeNode.IH validIngredients_member B in auto)
      have un: "processNode tg ?n ?p st = processEach tg (validIngredients rs) ?p rs ?s"
        unfolding processNode_unfold using e nonempty by simp
      have w: "walk ?n = ?n # concat (map walk rs)" using True by simp
      have fs: "forward ?s = forward st \<union> (if e \<in> set basicElements then {e} else {}) \<union> forwardShare tg ?n"
        using tgp nonempty eo io by (auto simp: enterNode_def forwardShare_def)
      have bs: "backward ?s = backward st \<union> (if e = tg then {tg} else {}) \<union> backwardShare tg ?n"
        using tgp nonempty eo io by (auto simp: enterNode_def backwardShare_def)
      show ?thesis unfolding un w using ch fs bs eo by (simp add: Un_assoc)
    qed
  qed
qed

lemma processEach_connections:
  assumes "\<And>c p st. c \<in> set cs \<Longrightarrow>
      connections (processNode tg c p st) = fold recordConnection (walk c) (connections st)"
  shows "connections (processEach tg ings q cs st) =
         fold recordConnection (concat (map walk cs)) (connections st)"
  using assms by (induction cs arbitrary: st) (simp_all add: Let_def)

lemma processNode_connections:
  "connections (processNode tg n p st) = fold recordConnection (walk n) (connections st)"
proof (induction n arbitrary: p st)
  case (TreeNode el rs)
  let ?n = "TreeNode el rs"
  show ?case
  proof (cases "truthy el")
    case False
    then show ?thesis by (simp add: processNode_falsy)
  next
    case True
    then obtain e where e: "el = Some e" "e \<noteq> []" by (auto simp: truthy_def split: option.splits)
    have eo: "elementOf ?n = e" using e by (simp add: elementOf_def)
    have io: "ingredientsOf ?n = validIngredients rs" by (simp add: ingredientsOf_def)
    show ?thesis
    proof (cases "validIngredients rs = []")
      case empty: True
      have "processNode tg ?n p st = touchNode tg e st"
        unfolding processNode_unfold using e empty by simp
      moreover have "walk ?n = [?n]" using True walk_children_empty[OF empty] by simp
      ultimately show ?thesis
        using io empty by (simp add: touchNode_def recordConnection_def)
    next
      case nonempty: False
      let ?s = "enterNode tg e (validIngredients rs) p st"
      have un: "processNode tg ?n p st = processEach tg (validIngredients rs) p rs ?s"
        unfolding processNode_unfold using e nonempty by simp
      have ch: "connections (processEach tg (validIngredients rs) p rs ?s) =
         fold recordConnection (concat (map walk rs)) (connections ?s)"
        by (rule processEach_connections) (rule TreeNode.IH)
      have "connections ?s = recordConnection ?n (connections st)"
        using nonempty eo io by (simp add: enterNode_def recordConnection_def)
      with un ch True show ?thesis by simp
    qed
  qed
qed

lemma fold_recordConnection_lookup:
  "(if \<exists>m\<in>set ns. ingredientsOf m \<noteq> [] \<and> elementOf m = x
    then \<exists>m\<in>set ns. ingredientsOf m \<noteq> [] \<and> elementOf m = x \<and>
           fold recordConnection ns acc x = Some (ingredientsOf m)
    else fold recordConnection ns acc x = acc x)"
proof (induction ns rule: rev_induct)
  case Nil show ?case by simp
next
  case (snoc n ns)
  show ?case
  proof (cases "ingredientsOf n \<noteq> [] \<and> elementOf n = x")
    case True
    then show ?thesis by (auto simp: recordConnection_def)
  next
    case False
    then have "fold recordConnection (ns @ [n]) acc x = fold recordConnection ns acc x"
      by (auto simp: recordConnection_def)
    with snoc False show ?thesis by (auto split: if_splits)
  qed
qed

lemma implicit_result:
  assumes "\<not> hasExplicitData d" and "processRecipeData tg d = Some st"
  shows "truthy (nodeElement (dataNode d))"
    and "forward st = set basicElements \<union> forwardOf tg (walk (dataNode d))"
    and "backward st = {tg} \<union> backwardOf tg (walk (dataNode d))"
    and "connections st = fold recordConnection (walk (dataNode d)) Map.empty"
proof -
  let ?t = "dataNode d"
  let ?st0 = "\<lparr>forward = set basicElements, backward = {tg}, meeting = {}, connections = Map.empty\<rparr>"
  show t: "truthy (nodeElement ?t)" using assms(2) by (rule processRecipeData_Some)
  let ?s = "processNode tg ?t (reachesTarget tg ?t) ?st0"
  have st: "st = ?s\<lparr>meeting := meeting ?s \<union> {element' \<in> forward ?s. element' \<in> backward ?s}\<rparr>"
    using assms t
    by (simp add: processRecipeData_def buildBidirectionalFromRecipeTree_def Let_def
          reachesTarget_def)
  show "forward st = set basicElements \<union> forwardOf tg (walk ?t)"
    using processNode_sets[of tg ?t ?st0] by (simp add: st)
  show "backward st = {tg} \<union> backwardOf tg (walk ?t)"
    using processNode_sets[of tg ?t ?st0] by (simp add: st)
  show "connections st = fold recordConnection (walk ?t) Map.empty"
    using processNode_connections[of tg ?t _ ?st0] by (simp add: st)
qed

lemma forwardOf_shares:
  "set basicElements \<union> forwardOf tg ns = set basicElements \<union> (\<Union>n\<in>set ns. forwardShare tg n)"
  by (auto simp: forwardOf_def split: if_splits)

lemma backwardOf_shares:
  "{tg} \<union> backwardOf tg ns = {tg} \<union> (\<Union>n\<in>set ns. backwardShare tg n)"
  by (auto simp: backwardOf_def split: if_splits)

lemma child_is_ingredient:
  "n \<in> set (nodeRecipes q) \<Longrightarrow> truthy (nodeElement n) \<Longrightarrow> elementOf n \<in> set (ingredientsOf q)"
  by (auto simp: ingredientsOf_def validIngredients_set)

lemma reaching_leaf_is_target:
  assumes "reachesTarget tg n" and "ingredientsOf n = []"
  shows "elementOf n = tg"
proof (cases n)
  case (TreeNode el rs)
  from assms(2) TreeNode have "\<forall>c\<in>set rs. \<not> truthy (nodeElement c)"
    by (simp add: ingredientsOf_def validIngredients_empty)
  then have "\<forall>c\<in>set rs. \<not> reachesTarget tg c" using reachesTarget_truthy by blast
  with assms(1) TreeNode show ?thesis by (auto simp: reachesTarget_node elementOf_def)
qed

text \<open>
  Claim C3 (as amended). For a plain recipe tree \<open>t\<close> that \<open>processRecipeData\<close> classifies:
  \<^item> \<open>targetPath\<close> lists the nodes of the path \<open>findPathToTarget\<close> returns, and every node
    on it has its element and its ingredients in the backward set;
  \<^item> the forward set is the four base elements together with, for every visited node with
    ingredients from which the target is not reachable, its element and its ingredients;
    the backward set is the target together with, for every visited node with ingredients
    from which the target is reachable, its element and its ingredients;
  \<^item> when the target is found and every visited node from which it is reachable lies on
    the first-match path, every visited node that is neither on the path nor a direct
    ingredient of a node on it is in the forward set;
  \<^item> the connections are the entries of the visited nodes with ingredients, a later node
    overwriting an earlier one with the same element; so every such node's element has a
    connection, which is the ingredient list of a visited node with that element;
  \<^item> the base elements are in the forward set and the target is in the backward set.
\<close>

theorem implicit_classification:
  assumes "\<not> hasExplicitData d" and "processRecipeData tg d = Some st" and "t = dataNode d"
  shows "map elementOf (targetPath t tg) = findPathToTarget t tg [] \<and>
     (\<forall>n\<in>set (targetPath t tg). elementOf n \<in> backward st \<and> set (ingredientsOf n) \<subseteq> backward st) \<and>
     forward st = set basicElements \<union> (\<Union>n\<in>set (walk t). forwardShare tg n) \<and>
     backward st = {tg} \<union> (\<Union>n\<in>set (walk t). backwardShare tg n) \<and>
     (single_route tg t \<longrightarrow> targetPath t tg \<noteq> [] \<longrightarrow> off_path_forward tg t st) \<and>
     connections st = fold recordConnection (walk t) Map.empty \<and>
     (\<forall>n\<in>set (walk t). ingredientsOf n \<noteq> [] \<longrightarrow>
        (\<exists>m\<in>set (walk t). elementOf m = elementOf n \<and> ingredientsOf m \<noteq> [] \<and>
           connections st (elementOf n) = Some (ingredientsOf m))) \<and>
     set basicElements \<subseteq> forward st \<and> tg \<in> backward st"
proof -
  note r = implicit_result[OF assms(1,2), folded assms(3)]
  have fw: "forward st = set basicElements \<union> (\<Union>n\<in>set (walk t). forwardShare tg n)"
    using r(2) forwardOf_shares by simp
  have bw: "backward st = {tg} \<union> (\<Union>n\<in>set (walk t). backwardShare tg n)"
    using r(3) backwardOf_shares by simp
  have path: "map elementOf (targetPath t tg) = findPathToTarget t tg []"
    using targetPath_props by blast
  have onpath: "elementOf n \<in> backward st \<and> set (ingredientsOf n) \<subseteq> backward st"
    if n: "n \<in> set (targetPath t tg)" for n
  proof -
    from n targetPath_props[of t tg] have w: "n \<in> set (walk t)" and rt: "reachesTarget tg n"
      by auto
    show ?thesis
    proof (cases "ingredientsOf n = []")
      case True
      with reaching_leaf_is_target[OF rt] bw show ?thesis by simp
    next
      case False
      with rt have "backwardShare tg n = insert (elementOf n) (set (ingredientsOf n))"
        by (simp add: backwardShare_def)
      with w bw show ?thesis by blast
    qed
  qed
  have single: "off_path_forward tg t st"
    if only: "single_route tg t"
      and ne: "targetPath t tg \<noteq> []"
    unfolding off_path_forward_def
  proof (intro ballI impI)
    fix n assume w: "n \<in> set (walk t)" and np: "n \<notin> set (targetPath t tg)"
      and nc: "\<forall>m\<in>set (targetPath t tg). n \<notin> set (nodeRecipes m)"
    from targetPath_head[OF ne] np have "n \<noteq> t" by auto
    with walk_parent[OF w] obtain q where q: "q \<in> set (walk t)" "n \<in> set (nodeRecipes q)"
      by blast
    from nc q(2) have "q \<notin> set (targetPath t tg)" by blast
    with only q(1) have nr: "\<not> reachesTarget tg q" unfolding single_route_def by blast
    have "elementOf n \<in> set (ingredientsOf q)"
      by (rule child_is_ingredient[OF q(2) walk_truthy[OF w]])
    then have "elementOf n \<in> forwardShare tg q" using nr by (auto simp: forwardShare_def)
    with q(1) fw show "elementOf n \<in> forward st" by blast
  qed
  have conn: "\<exists>m\<in>set (walk t). elementOf m = elementOf n \<and> ingredientsOf m \<noteq> [] \<and>
           connections st (elementOf n) = Some (ingredientsOf m)"
    if n: "n \<in> set (walk t)" "ingredientsOf n \<noteq> []" for n
  proof -
    have ex: "\<exists>m\<in>set (walk t). ingredientsOf m \<noteq> [] \<and> elementOf m = elementOf n"
      using n by blast
    from fold_recordConnection_lookup[of "walk t" "elementOf n" Map.empty] ex
    have "\<exists>m\<in>set (walk t). ingredientsOf m \<noteq> [] \<and> elementOf m = elementOf n \<and>
           fold recordConnection (walk t) Map.empty (elementOf n) = Some (ingredientsOf m)"
      by (simp only: if_True)
    then show ?thesis unfolding r(4) by blast
  qed
  have base: "set basicElements \<subseteq> forward st" "tg \<in> backward st" using fw bw by auto
  from path onpath fw bw single r(4) conn base show ?thesis by blast
qed

lemmas tree_eval = classify_eval plainTree_def buildBidirectionalFromRecipeTree_def
  processNode.simps(1) validIngredients_def arrayIncludes_def

lemma twoRoutes_result:
  "processRecipeData ''T'' (plainTree twoRoutes) =
     Some \<lparr>forward = {''Water'', ''Fire'', ''Earth'', ''Air''},
           backward = {''T'', ''R'', ''A'', ''B'', ''C''},
           meeting = {},
           connections = [''R'' \<mapsto> [''A'', ''B''], ''A'' \<mapsto> [''T''], ''B'' \<mapsto> [''C''], ''C'' \<mapsto> [''T'']]\<rparr>"
  by (auto simp: tree_eval twoRoutes_def)

lemma twoRoutes_path:
  "findPathToTarget twoRoutes ''T'' [] = [''R'', ''A'', ''T'']"
  "targetPath twoRoutes ''T'' =
     [twoRoutes, TreeNode (Some ''A'') [TreeNode (Some ''T'') []], TreeNode (Some ''T'') []]"
  by (simp_all add: twoRoutes_def truthy_def)

text \<open>
  The classification of the other nodes fails as the specification states it: in
  \<open>R[A[T], B[C[T]]]\<close> with target \<open>T\<close> the first-match path is \<open>R, A, T\<close>; the node \<open>C\<close> is
  neither on it nor an ingredient of \<open>R\<close>, \<open>A\<close> or \<open>T\<close>, and it is classified backward, not
  forward.
\<close>

theorem off_path_forward_counterexample:
  "findPathToTarget twoRoutes ''T'' [] = [''R'', ''A'', ''T''] \<and>
   processRecipeData ''T'' (plainTree twoRoutes) \<noteq> None \<and>
   \<not> off_path_forward ''T'' twoRoutes (the (processRecipeData ''T'' (plainTree twoRoutes)))"
proof -
  let ?c = "TreeNode (Some ''C'') [TreeNode (Some ''T'') []]"
  have w: "?c \<in> set (walk twoRoutes)" by (simp add: twoRoutes_def truthy_def)
  have np: "?c \<notin> set (targetPath twoRoutes ''T'')" unfolding twoRoutes_path by (simp add: twoRoutes_def)
  have nc: "\<forall>m\<in>set (targetPath twoRoutes ''T''). ?c \<notin> set (nodeRecipes m)"
    unfolding twoRoutes_path by (simp add: twoRoutes_def)
  have nf: "elementOf ?c \<notin> forward (the (processRecipeData ''T'' (plainTree twoRoutes)))"
    unfolding twoRoutes_result by (simp add: elementOf_def)
  have "\<not> off_path_forward ''T'' twoRoutes (the (processRecipeData ''T'' (plainTree twoRoutes)))"
    unfolding off_path_forward_def using w np nc nf by blast
  then show ?thesis using twoRoutes_path(1) twoRoutes_result by simp
qed

lemma mudTree_result:
  "processRecipeData ''Mud'' (plainTree mudTree) =
     Some \<lparr>forward = {''Water'', ''Fire'', ''Earth'', ''Air''},
           backward = {''Mud'', ''Water'', ''Earth''},
           meeting = {''Water'', ''Earth''},
           connections = [''Mud'' \<mapsto> [''Water'', ''Earth'']]\<rparr>"
  by (auto simp: tree_eval mudTree_def)

text \<open>
  The theorem at the tree \<open>Mud[Water, Earth]\<close> with target \<open>Mud\<close>.
\<close>

theorem implicit_classification_witness:
  "\<not> hasExplicitData (plainTree mudTree) \<and>
   processRecipeData ''Mud'' (plainTree mudTree) =
     Some \<lparr>forward = {''Water'', ''Fire'', ''Earth'', ''Air''},
           backward = {''Mud'', ''Water'', ''Earth''},
           meeting = {''Water'', ''Earth''},
           connections = [''Mud'' \<mapsto> [''Water'', ''Earth'']]\<rparr> \<and>
   single_route ''Mud'' mudTree \<and>
   targetPath mudTree ''Mud'' \<noteq> [] \<and>
   off_path_forward ''Mud'' mudTree
     \<lparr>forward = {''Water'', ''Fire'', ''Earth'', ''Air''},
      backward = {''Mud'', ''Water'', ''Earth''},
      meeting = {''Water'', ''Earth''},
      connections = [''Mud'' \<mapsto> [''Water'', ''Earth'']]\<rparr>"
proof -
  have h1: "\<not> hasExplicitData (plainTree mudTree)"
    by (simp add: hasExplicitData_def plainTree_def)
  have h3: "mudTree = dataNode (plainTree mudTree)" by (simp add: plainTree_def)
  have h4: "single_route ''Mud'' mudTree"
    by (simp add: single_route_def mudTree_def truthy_def reachesTarget_def)
  have h5: "targetPath mudTree ''Mud'' \<noteq> []" by (simp add: mudTree_def truthy_def)
  from implicit_classification[OF h1 mudTree_result h3] h4 h5 h1 mudTree_result
  show ?thesis by blast
qed

text \<open>
  The theorem at the advisory payload, and at the plain tree \<open>Mud[Water, Earth]\<close> with target
  \<open>Mud\<close>.
\<close>

theorem meeting_is_intersection_plus_explicit_witness:
  "processRecipeData ''Wood'' advisoryPayload =
     Some \<lparr>forward = {''Water'', ''Wood'', ''Fire'', ''Earth'', ''Air''},
           backward = {''Wood''},
           meeting = {''Wood'', ''Mud''},
           connections = [''Wood'' \<mapsto> [''Water'', ''Earth'']]\<rparr> \<and>
   explicitMeeting advisoryPayload = {''Mud''} \<and>
   {''Wood'', ''Mud''} = ({''Water'', ''Wood'', ''Fire'', ''Earth'', ''Air''} \<inter> {''Wood''}) \<union> {''Mud''} \<and>
   \<not> hasExplicitData (plainTree mudTree) \<and>
   explicitMeeting (plainTree mudTree) \<subseteq> {''Water'', ''Fire'', ''Earth'', ''Air''} \<inter> {''Mud'', ''Water'', ''Earth''} \<and>
   meeting_is_intersection
     \<lparr>forward = {''Water'', ''Fire'', ''Earth'', ''Air''},
      backward = {''Mud'', ''Water'', ''Earth''},
      meeting = {''Water'', ''Earth''},
      connections = [''Mud'' \<mapsto> [''Water'', ''Earth'']]\<rparr>"
proof -
  have e: "explicitMeeting advisoryPayload = {''Mud''}"
    by (simp add: explicitMeeting_def advisoryPayload_def hasExplicitData_def orEmpty_def orElse_def)
  have n: "\<not> hasExplicitData (plainTree mudTree)"
    by (simp add: hasExplicitData_def plainTree_def)
  then have m: "explicitMeeting (plainTree mudTree) = {}" by (simp add: explicitMeeting_def)
  from meeting_is_intersection_plus_explicit[OF advisoryPayload_result]
    meeting_is_intersection_plus_explicit[OF mudTree_result]
    advisoryPayload_result e n m
  show ?thesis by simp
qed

text \<open>The theorem at the advisory payload with target \<open>Wood\<close>.\<close>

theorem base_in_forward_target_in_backward_witness:
  "processRecipeData ''Wood'' advisoryPayload =
     Some \<lparr>forward = {''Water'', ''Wood'', ''Fire'', ''Earth'', ''Air''},
           backward = {''Wood''},
           meeting = {''Wood'', ''Mud''},
           connections = [''Wood'' \<mapsto> [''Water'', ''Earth'']]\<rparr> \<and>
   {''Water'', ''Fire'', ''Earth'', ''Air''} \<subseteq> {''Water'', ''Wood'', ''Fire'', ''Earth'', ''Air''} \<and>
   ''Wood'' \<in> {''Wood''}"
  using base_in_forward_target_in_backward[OF advisoryPayload_result] advisoryPayload_result
  by simp

text \<open>
  The theorem at a payload where \<open>Brick\<close> has the recipe \<open>[Mud, Fire]\<close> in the forward map and
  \<open>[Clay, Stone]\<close> in the backward map.
\<close>

theorem backward_recipe_overwrites_forward_witness:
  "processRecipeData ''Brick'' bothRecipesPayload =
     Some \<lparr>forward = {''Water'', ''Fire'', ''Earth'', ''Air'', ''Brick''},
           backward = {''Brick''},
           meeting = {''Brick''},
           connections = [''Brick'' \<mapsto> [''Clay'', ''Stone'']]\<rparr> \<and>
   hasExplicitData bothRecipesPayload \<and>
   usableRecipe (property (orEmpty (orElse (forwardVisited bothRecipesPayload)
      (ForwardVisited bothRecipesPayload))) ''Brick'') = Some [''Mud'', ''Fire''] \<and>
   usableRecipe (property (orEmpty (orElse (backwardVisited bothRecipesPayload)
      (BackwardVisited bothRecipesPayload))) ''Brick'') = Some [''Clay'', ''Stone''] \<and>
   connections \<lparr>forward = {''Water'', ''Fire'', ''Earth'', ''Air'', ''Brick''},
           backward = {''Brick''},
           meeting = {''Brick''},
           connections = [''Brick'' \<mapsto> [''Clay'', ''Stone'']]\<rparr> ''Brick'' = Some [''Clay'', ''Stone'']"
proof -
  have r: "processRecipeData ''Brick'' bothRecipesPayload =
     Some \<lparr>forward = {''Water'', ''Fire'', ''Earth'', ''Air'', ''Brick''},
           backward = {''Brick''},
           meeting = {''Brick''},
           connections = [''Brick'' \<mapsto> [''Clay'', ''Stone'']]\<rparr>"
    by (auto simp: classify_eval bothRecipesPayload_def)
  have h: "hasExplicitData bothRecipesPayload"
    by (simp add: hasExplicitData_def bothRecipesPayload_def)
  have f: "usableRecipe (property (orEmpty (orElse (forwardVisited bothRecipesPayload)
      (ForwardVisited bothRecipesPayload))) ''Brick'') = Some [''Mud'', ''Fire'']"
    by (simp add: classify_eval bothRecipesPayload_def)
  have b: "usableRecipe (property (orEmpty (orElse (backwardVisited bothRecipesPayload)
      (BackwardVisited bothRecipesPayload))) ''Brick'') = Some [''Clay'', ''Stone'']"
    by (simp add: classify_eval bothRecipesPayload_def)
  from backward_recipe_overwrites_forward[OF r h f b] r h f b show ?thesis by simp
qed

lemma validIngredients_prune:
  "validIngredients (map prune (filter (\<lambda>r. truthy (nodeElement r)) rs)) = validIngredients rs"
proof (induction rs)
  case Nil show ?case by simp
next
  case (Cons r rs)
  have "nodeElement (prune r) = nodeElement r" by (cases r) simp
  with Cons show ?case by (simp add: validIngredients_Cons elementOf_def)
qed

lemma prune_element [simp]: "nodeElement (prune n) = nodeElement n"
  by (cases n) simp

lemma findPath_falsy: "\<not> truthy (nodeElement n) \<Longrightarrow> findPathToTarget n tg cp = []"
  by (cases n) (auto simp: truthy_def split: option.splits)

lemma findPathChildren_prune:
  assumes "\<And>c cp. c \<in> set rs \<Longrightarrow> findPathToTarget (prune c) tg cp = findPathToTarget c tg cp"
  shows "findPathChildren (map prune (filter (\<lambda>r. truthy (nodeElement r)) rs)) tg cp =
         findPathChildren rs tg cp"
  using assms by (induction rs) (simp_all add: Let_def findPath_falsy)

lemma findPath_prune: "findPathToTarget (prune n) tg cp = findPathToTarget n tg cp"
proof (induction n arbitrary: cp)
  case (TreeNode el rs)
  let ?rs = "map prune (filter (\<lambda>r. truthy (nodeElement r)) rs)"
  have ch: "findPathChildren ?rs tg cp' = findPathChildren rs tg cp'" for cp'
    by (rule findPathChildren_prune) (rule TreeNode.IH)
  have "findPathChildren rs tg cp' = []" if "?rs = []" for cp'
    using ch[of cp'] that by simp
  then show ?case using ch by (auto split: option.splits)
qed

lemma processEach_prune:
  assumes "\<And>c p st. c \<in> set rs \<Longrightarrow> processNode tg (prune c) p st = processNode tg c p st"
  shows "processEach tg ings q (map prune (filter (\<lambda>r. truthy (nodeElement r)) rs)) st =
         processEach tg ings q rs st"
  using assms
  by (induction rs arbitrary: st) (simp_all add: Let_def processNode_falsy findPath_prune)

lemma processNode_prune: "processNode tg (prune n) p st = processNode tg n p st"
proof (induction n arbitrary: p st)
  case (TreeNode el rs)
  let ?rs = "map prune (filter (\<lambda>r. truthy (nodeElement r)) rs)"
  have "processEach tg ings q ?rs s = processEach tg ings q rs s" for ings q s
    by (rule processEach_prune) (rule TreeNode.IH)
  then show ?case
    by (simp add: processNode_unfold validIngredients_prune split: option.splits)
qed

text \<open>
  Claim C9. Classification is a total function on trees with malformed nodes: no operation
  it performs on a node without \<^verbatim>\<open>element\<close> can throw. The result for a payload equals the
  result for the payload whose tree has every malformed node, and the sub-tree below it,
  deleted, so a malformed node contributes to no set and its siblings are classified as
  if it were absent; a state is produced whenever the root is well formed; and
  \<open>processNode\<close> and \<open>findPathToTarget\<close> return at once on a malformed node.
\<close>

theorem malformed_nodes_are_skipped:
  "processRecipeData tg (d\<lparr>dataNode := prune (dataNode d)\<rparr>) = processRecipeData tg d \<and>
   (truthy (nodeElement (dataNode d)) \<longrightarrow> processRecipeData tg d \<noteq> None) \<and>
   (\<not> truthy (nodeElement n) \<longrightarrow> processNode tg n p st = st \<and> findPathToTarget n tg cp = [])"
proof -
  have "processRecipeData tg (d\<lparr>dataNode := prune (dataNode d)\<rparr>) = processRecipeData tg d"
    by (simp add: processRecipeData_def hasExplicitData_def buildBidirectionalFromRecipeTree_def
          processNode_prune findPath_prune Let_def)
  moreover have "truthy (nodeElement (dataNode d)) \<longrightarrow> processRecipeData tg d \<noteq> None"
    by (simp add: processRecipeData_def Let_def)
  ultimately show ?thesis using processNode_falsy findPath_falsy by blast
qed

text \<open>
  The theorem at \<open>Mud[Water, {recipes: [Fire[Air]]}, Earth]\<close>, whose second ingredient has no
  element.
\<close>

theorem malformed_nodes_are_skipped_witness:
  "prune holedTree = mudTree \<and>
   truthy (nodeElement (dataNode (plainTree holedTree))) \<and>
   processRecipeData ''Mud'' (plainTree holedTree) = processRecipeData ''Mud'' (plainTree mudTree) \<and>
   processRecipeData ''Mud'' (plainTree holedTree) \<noteq> None \<and>
   \<not> truthy (nodeElement (TreeNode None [TreeNode (Some ''Fire'') []])) \<and>
   processNode ''Mud'' (TreeNode None [TreeNode (Some ''Fire'') []]) True
     \<lparr>forward = {}, backward = {}, meeting = {}, connections = Map.empty\<rparr> =
     \<lparr>forward = {}, backward = {}, meeting = {}, connections = Map.empty\<rparr>"
proof -
  have p: "prune holedTree = mudTree" by (simp add: holedTree_def mudTree_def truthy_def)
  have t: "truthy (nodeElement (dataNode (plainTree holedTree)))"
    by (simp add: plainTree_def holedTree_def truthy_def)
  have e: "(plainTree holedTree)\<lparr>dataNode := prune (dataNode (plainTree holedTree))\<rparr> = plainTree mudTree"
    using p by (simp add: plainTree_def)
  have f: "\<not> truthy (nodeElement (TreeNode None [TreeNode (Some ''Fire'') []]))"
    by (simp add: truthy_def)
  from malformed_nodes_are_skipped[of "''Mud''" "plainTree holedTree"
      "TreeNode None [TreeNode (Some ''Fire'') []]" True
      "\<lparr>forward = {}, backward = {}, meeting = {}, connections = Map.empty\<rparr>" "[]"]
    p t f
  show ?thesis unfolding e by simp
qed

subsection \<open>DFS trace builder and layout\<close>

lemma find_triple_None:
  "find (\<lambda>n. dfsElement n = e \<and> depth n = d \<and> parent n = p) ns = None \<longleftrightarrow>
   (e, d, p) \<notin> triple ` set ns"
  by (auto simp: find_None_iff triple_def)

lemma processDFSData_nodes:
  "dfsNodes (processDFSData stamp data st) =
     (case (msgElement data, msgDepth data) of
        (Some e, Some d) \<Rightarrow>
          if (e, d, msgParent data) \<in> triple ` set (dfsNodes st) then dfsNodes st
          else dfsNodes st @ [\<lparr>dfsElement = e, depth = d, parent = msgParent data,
                                nodeId = e @ ''_'' @ showInt d @ ''_'' @ stamp\<rparr>]
      | _ \<Rightarrow> dfsNodes st)"
proof (cases "msgElement data")
  case None then show ?thesis by (simp add: processDFSData_def)
next
  case e: (Some e)
  show ?thesis
  proof (cases "msgDepth data")
    case None with e show ?thesis by (simp add: processDFSData_def)
  next
    case d: (Some d)
    show ?thesis
    proof (cases "find (\<lambda>n. dfsElement n = e \<and> depth n = d \<and> parent n = msgParent data) (dfsNodes st)")
      case None
      have "(e, d, msgParent data) \<notin> triple ` set (dfsNodes st)"
        by (rule find_triple_None[THEN iffD1, OF None])
      with None e d show ?thesis by (simp add: processDFSData_def Let_def)
    next
      case (Some n)
      then have "find (\<lambda>n. dfsElement n = e \<and> depth n = d \<and> parent n = msgParent data) (dfsNodes st) \<noteq> None"
        by simp
      note this[unfolded find_triple_None]
      then have "(e, d, msgParent data) \<in> triple ` set (dfsNodes st)" by simp
      with Some e d show ?thesis by (simp add: processDFSData_def Let_def)
    qed
  qed
qed

lemma processDFSData_distinct:
  "distinct (map triple (dfsNodes st)) \<Longrightarrow>
   distinct (map triple (dfsNodes (processDFSData stamp data st)))"
  unfolding processDFSData_nodes
  by (auto simp: triple_def image_iff split: option.splits)

text \<open>
  The duplicate test is strict equality: a message without a \<^verbatim>\<open>parent\<close> field is not a repeat
  of one whose parent is \<^verbatim>\<open>null\<close>, and both nodes are kept; a true repeat is dropped.
\<close>

lemma processDFSData_undefined_is_not_null:
  "map triple (dfsNodes
     (processDFSData s3 \<lparr>msgElement = Some ''Mud'', msgDepth = Some 0, msgParent = Null\<rparr>
       (processDFSData s2 \<lparr>msgElement = Some ''Mud'', msgDepth = Some 0, msgParent = Undefined\<rparr>
         (processDFSData s1 \<lparr>msgElement = Some ''Mud'', msgDepth = Some 0, msgParent = Null\<rparr>
            emptyDFS)))) =
   [(''Mud'', 0, Null), (''Mud'', 0, Undefined)]"
  by (simp add: processDFSData_nodes emptyDFS_def triple_def)

lemma replay_distinct:
  "distinct (map triple (dfsNodes st)) \<Longrightarrow>
   distinct (map triple (dfsNodes (replay stamp k ms st)))"
  by (induction ms arbitrary: k st) (simp_all add: processDFSData_distinct)

lemma processRecipeTree_distinct:
  "distinct (map triple (dfsNodes (processRecipeTree stamp t st)))"
  unfolding processRecipeTree_def Let_def by (rule replay_distinct) simp

lemma traverseDFS_unfold:
  "traverseDFS stamp (TreeNode el rs) d p visited st =
     (case el of
        None \<Rightarrow> st
      | Some e \<Rightarrow>
          if e = [] \<or> nodeKeyOf e d p \<in> visited then st
          else
            (case elementTracker st (elementKeyOf e d) of
               Some existing \<Rightarrow>
                 st\<lparr>stamps := Suc (stamps st),
                    elementTracker := (elementTracker st)
                      (elementKeyOf e d \<mapsto> (fst existing, snd existing \<union> parentSet p))\<rparr>
             | None \<Rightarrow>
                 traverseEach stamp rs (d + 1) (Parent e) (insert (nodeKeyOf e d p) visited)
                   (st\<lparr>stamps := Suc (stamps st),
                       elementTracker := (elementTracker st)
                         (elementKeyOf e d \<mapsto>
                            (\<lparr>dfsElement = e, depth = d, parent = p,
                              nodeId = e @ ''_'' @ showInt d @ ''_'' @ stamp (stamps st)\<rparr>, parentSet p)),
                       traceNodes := traceNodes st @
                         [\<lparr>dfsElement = e, depth = d, parent = p,
                           nodeId = e @ ''_'' @ showInt d @ ''_'' @ stamp (stamps st)\<rparr>]\<rparr>)))"
  by (simp add: Let_def split: option.splits)

declare traverseDFS.simps(1) [simp del]

lemma traverseEach_tracked:
  assumes "\<And>c d p v st. c \<in> set cs \<Longrightarrow> tracked st \<Longrightarrow> tracked (traverseDFS stamp c d p v st)"
  shows "tracked st \<Longrightarrow> tracked (traverseEach stamp cs d p v st)"
  using assms by (induction cs arbitrary: st) simp_all

lemma tracked_merge:
  assumes t: "tracked st" and e: "elementTracker st k = Some existing"
  shows "tracked (st\<lparr>stamps := s,
            elementTracker := (elementTracker st)(k \<mapsto> (fst existing, snd existing \<union> ps'))\<rparr>)"
  unfolding tracked_def
proof (intro conjI ballI)
  show "distinct (map keyOf (traceNodes (st\<lparr>stamps := s,
            elementTracker := (elementTracker st)(k \<mapsto> (fst existing, snd existing \<union> ps'))\<rparr>)))"
    using t by (simp add: tracked_def)
next
  fix n assume "n \<in> set (traceNodes (st\<lparr>stamps := s,
            elementTracker := (elementTracker st)(k \<mapsto> (fst existing, snd existing \<union> ps'))\<rparr>))"
  then have n: "n \<in> set (traceNodes st)" by simp
  with t obtain ps where ps: "elementTracker st (keyOf n) = Some (n, ps)" "parentSet (parent n) \<subseteq> ps"
    unfolding tracked_def by blast
  show "\<exists>ps. elementTracker (st\<lparr>stamps := s,
            elementTracker := (elementTracker st)(k \<mapsto> (fst existing, snd existing \<union> ps'))\<rparr>) (keyOf n)
          = Some (n, ps) \<and> parentSet (parent n) \<subseteq> ps"
  proof (cases "keyOf n = k")
    case True
    with ps e have "existing = (n, ps)" by simp
    with True ps(2) show ?thesis by auto
  next
    case False
    with ps show ?thesis by auto
  qed
qed

lemma tracked_emit:
  assumes t: "tracked st" and e: "elementTracker st (keyOf n) = None"
  shows "tracked (st\<lparr>stamps := s,
            elementTracker := (elementTracker st)(keyOf n \<mapsto> (n, parentSet (parent n))),
            traceNodes := traceNodes st @ [n]\<rparr>)"
proof -
  have fresh: "keyOf n \<notin> keyOf ` set (traceNodes st)"
  proof
    assume "keyOf n \<in> keyOf ` set (traceNodes st)"
    then obtain m where "m \<in> set (traceNodes st)" "keyOf m = keyOf n" by auto
    with t e show False unfolding tracked_def by force
  qed
  have "\<exists>ps. ((elementTracker st)(keyOf n \<mapsto> (n, parentSet (parent n)))) (keyOf m) = Some (m, ps)
          \<and> parentSet (parent m) \<subseteq> ps"
    if "m \<in> set (traceNodes st)" for m
  proof -
    from that fresh have "keyOf m \<noteq> keyOf n" by (metis imageI)
    with that t show ?thesis unfolding tracked_def by auto
  qed
  with t fresh show ?thesis unfolding tracked_def by auto
qed

lemma traverseDFS_tracked:
  "tracked st \<Longrightarrow> tracked (traverseDFS stamp n d p v st)"
proof (induction n arbitrary: d p v st)
  case (TreeNode el rs)
  show ?case
  proof (cases "\<exists>e. el = Some e \<and> e \<noteq> [] \<and> nodeKeyOf e d p \<notin> v")
    case False
    with TreeNode.prems show ?thesis
      unfolding traverseDFS_unfold by (auto split: option.splits)
  next
    case True
    then obtain e where e: "el = Some e" "e \<noteq> []" "nodeKeyOf e d p \<notin> v" by blast
    show ?thesis
    proof (cases "elementTracker st (elementKeyOf e d)")
      case (Some existing)
      with e tracked_merge[OF TreeNode.prems Some] show ?thesis
        unfolding traverseDFS_unfold by simp
    next
      case None
      let ?n = "\<lparr>dfsElement = e, depth = d, parent = p,
                  nodeId = e @ ''_'' @ showInt d @ ''_'' @ stamp (stamps st)\<rparr>"
      have "tracked (st\<lparr>stamps := Suc (stamps st),
            elementTracker := (elementTracker st)(elementKeyOf e d \<mapsto> (?n, parentSet p)),
            traceNodes := traceNodes st @ [?n]\<rparr>)"
        using tracked_emit[OF TreeNode.prems, of ?n "Suc (stamps st)"] None
        by (simp add: keyOf_def)
      then have "tracked (traverseEach stamp rs (d + 1) (Parent e) (insert (nodeKeyOf e d p) v)
           (st\<lparr>stamps := Suc (stamps st),
            elementTracker := (elementTracker st)(elementKeyOf e d \<mapsto> (?n, parentSet p)),
            traceNodes := traceNodes st @ [?n]\<rparr>))"
        by (rule traverseEach_tracked[rotated]) (rule TreeNode.IH)
      with e None show ?thesis unfolding traverseDFS_unfold by simp
    qed
  qed
qed

lemma tracked_emptyTrace: "tracked emptyTrace"
  by (simp add: tracked_def emptyTrace_def)

lemma distinct_keys_pairs:
  "distinct (map keyOf ns) \<Longrightarrow> distinct (map (\<lambda>n. (dfsElement n, depth n)) ns)"
  by (induction ns) (auto simp: keyOf_def image_iff)

lemma pairs_triples:
  "distinct (map (\<lambda>n. (dfsElement n, depth n)) ns) \<Longrightarrow> distinct (map triple ns)"
  by (induction ns) (auto simp: triple_def image_iff)

lemma traverseDFS_no_duplicates:
  "distinct (map (\<lambda>n. (dfsElement n, depth n)) (traceNodes (traverseDFS stamp t 0 Null {} emptyTrace)))"
  using traverseDFS_tracked[OF tracked_emptyTrace, of stamp t 0 Null "{}"]
  by (auto simp: tracked_def intro: distinct_keys_pairs)

lemma showInt_small [simp]:
  "showInt 0 = ''0''" "showInt 1 = ''1''" "showInt 2 = ''2''" "showInt 3 = ''3''"
  by (simp_all add: showInt_def showNat.simps)

lemmas trace_eval = traverseDFS_unfold nodeKeyOf_def elementKeyOf_def orRoot_def parentSet_def
  emptyTrace_def triple_def


text \<open>
  With plain element names the second \<open>Brick\<close> at depth 2 is merged: one node, parents
  \<open>{Y, X}\<close>.
\<close>

lemma brickTree_merged:
  "map triple (traceNodes (traverseDFS stamp brickTree 0 Null {} emptyTrace)) =
     [(''Wall'', 0, Null), (''Y'', 1, Parent ''Wall''),
      (''Brick'', 2, Parent ''Y''), (''X'', 1, Parent ''Wall'')] \<and>
   map_option snd (elementTracker (traverseDFS stamp brickTree 0 Null {} emptyTrace)
      (elementKeyOf ''Brick'' 2)) = Some {''Y'', ''X''}"
  by (auto simp: trace_eval brickTree_def)

lemma indexAtDepth_less:
  assumes "i < length nodes"
  shows "indexAtDepth nodes i < levelCount nodes i"
proof -
  have "nodes = take i nodes @ nodes ! i # drop (Suc i) nodes"
    using assms by (rule id_take_nth_drop)
  then have "depthNodes nodes (depth (nodes ! i)) =
      depthNodes (take i nodes) (depth (nodes ! i)) @
      nodes ! i # depthNodes (drop (Suc i) nodes) (depth (nodes ! i))"
    unfolding depthNodes_def by (metis (mono_tags, lifting) filter.simps(2) filter_append)
  then show ?thesis by (simp add: indexAtDepth_def levelCount_def)
qed

lemma positionNode_coordinates:
  assumes i: "i < length nodes"
  shows "posY (positionNode (getDimensions svg) nodes i) =
           40 + real_of_int (depth (nodes ! i)) / real_of_int (max (Max (depth ` set nodes)) 1)
                * innerHeightOf svg"
    and "posX (positionNode (getDimensions svg) nodes i) =
           40 + innerWidthOf svg / 2 - levelWidth svg nodes i / 2 +
           (real (indexAtDepth nodes i) + 1 / 2) * (levelWidth svg nodes i / real (levelCount nodes i))"
proof -
  let ?k = "real (levelCount nodes i)"
  let ?aw = "levelWidth svg nodes i"
  have kpos: "0 < levelCount nodes i" using indexAtDepth_less[OF i] by simp
  show "posY (positionNode (getDimensions svg) nodes i) =
           40 + real_of_int (depth (nodes ! i)) / real_of_int (max (Max (depth ` set nodes)) 1)
                * innerHeightOf svg"
    by (simp add: positionNode_def Let_def innerHeightOf_def)
  have "?k * 60 \<le> ?aw" by (simp add: levelWidth_def)
  then have "60 \<le> ?aw / ?k" using kpos by (simp add: pos_le_divide_eq mult.commute)
  then have sp: "max 60 (?aw / ?k) = ?aw / ?k" by simp
  show "posX (positionNode (getDimensions svg) nodes i) =
           40 + innerWidthOf svg / 2 - ?aw / 2 + (real (indexAtDepth nodes i) + 1 / 2) * (?aw / ?k)"
  proof (cases "levelCount nodes i = 1")
    case True
    then have "indexAtDepth nodes i = 0" using indexAtDepth_less[OF i] by simp
    with True show ?thesis
      by (simp add: positionNode_def Let_def innerWidthOf_def levelCount_def)
  next
    case False
    have raw: "posX (positionNode (getDimensions svg) nodes i) =
        real (indexAtDepth nodes i) * max 60 (?aw / ?k) + max 60 (?aw / ?k) / 2 - ?aw / 2
        + innerWidthOf svg / 2 + 40"
      using False
      by (simp add: positionNode_def Let_def levelWidth_def innerWidthOf_def levelCount_def)
    show ?thesis unfolding raw sp by (simp add: algebra_simps)
  qed
qed

lemma createDFSLayout_nodes:
  "nodes \<noteq> [] \<Longrightarrow>
   fst (createDFSLayout svg conns nodes) = map (positionNode (getDimensions svg) nodes) [0..<length nodes]"
  by (simp add: createDFSLayout_def Let_def)

text \<open>
  Claim C8. For a non-empty node sequence and the node at position \<open>i\<close>: the layout has as
  many nodes as the sequence; \<open>y\<close> is the top margin plus \<open>depth / max(maxDepth, 1)\<close> of the
  inner height, which is \<open>depth / maxDepth\<close> of it as soon as some node is below the root;
  \<open>x\<close> is the centre of the \<open>j\<close>-th of \<open>k\<close> equal cells that tile an interval of the level's
  width, the greater of the inner width and \<open>k\<close> times the minimum spacing 60, centred at
  the middle of the inner width (\<open>j\<close> the index of the node among the \<open>k\<close> nodes of its
  depth); so a cell is at least 60 wide, two nodes of one level are apart by the
  difference of their indices times the cell width, and a lone node is at the horizontal
  centre.
\<close>

theorem dfs_layout_spreads_levels:
  assumes "nodes \<noteq> []" and "i < length nodes"
  shows "length (fst (createDFSLayout svg conns nodes)) = length nodes \<and>
     posY (fst (createDFSLayout svg conns nodes) ! i) =
       40 + real_of_int (depth (nodes ! i)) / real_of_int (max (Max (depth ` set nodes)) 1)
            * innerHeightOf svg \<and>
     (1 \<le> Max (depth ` set nodes) \<longrightarrow>
        posY (fst (createDFSLayout svg conns nodes) ! i) =
          40 + real_of_int (depth (nodes ! i)) / real_of_int (Max (depth ` set nodes))
               * innerHeightOf svg) \<and>
     posX (fst (createDFSLayout svg conns nodes) ! i) =
       40 + innerWidthOf svg / 2 - levelWidth svg nodes i / 2 +
       (real (indexAtDepth nodes i) + 1 / 2) * (levelWidth svg nodes i / real (levelCount nodes i)) \<and>
     indexAtDepth nodes i < levelCount nodes i \<and>
     60 \<le> levelWidth svg nodes i / real (levelCount nodes i) \<and>
     (\<forall>i'<length nodes. depth (nodes ! i') = depth (nodes ! i) \<longrightarrow>
        posX (fst (createDFSLayout svg conns nodes) ! i') -
        posX (fst (createDFSLayout svg conns nodes) ! i) =
          (real (indexAtDepth nodes i') - real (indexAtDepth nodes i)) *
          (levelWidth svg nodes i / real (levelCount nodes i))) \<and>
     (levelCount nodes i = 1 \<longrightarrow>
        posX (fst (createDFSLayout svg conns nodes) ! i) = 40 + innerWidthOf svg / 2)"
proof -
  let ?L = "fst (createDFSLayout svg conns nodes)"
  have p: "?L ! k = positionNode (getDimensions svg) nodes k" if "k < length nodes" for k
    using assms(1) that by (simp add: createDFSLayout_nodes)
  have len: "length ?L = length nodes"
    using assms by (simp add: createDFSLayout_nodes)
  note c = positionNode_coordinates[OF assms(2), of svg]
  have y1: "posY (?L ! i) =
      40 + real_of_int (depth (nodes ! i)) / real_of_int (Max (depth ` set nodes)) * innerHeightOf svg"
    if "1 \<le> Max (depth ` set nodes)"
    using that unfolding p[OF assms(2)] c(1) by (simp add: max_def)
  have lt: "indexAtDepth nodes i < levelCount nodes i" by (rule indexAtDepth_less[OF assms(2)])
  then have kpos: "0 < levelCount nodes i" by simp
  have "real (levelCount nodes i) * 60 \<le> levelWidth svg nodes i" by (simp add: levelWidth_def)
  then have sp: "60 \<le> levelWidth svg nodes i / real (levelCount nodes i)"
    using kpos by (simp add: pos_le_divide_eq mult.commute)
  have even: "posX (?L ! i') - posX (?L ! i) =
          (real (indexAtDepth nodes i') - real (indexAtDepth nodes i)) *
          (levelWidth svg nodes i / real (levelCount nodes i))"
    if i': "i' < length nodes" and d: "depth (nodes ! i') = depth (nodes ! i)" for i'
  proof -
    have k: "levelCount nodes i' = levelCount nodes i" by (simp add: levelCount_def d)
    then have w: "levelWidth svg nodes i' = levelWidth svg nodes i" by (simp add: levelWidth_def)
    define cell where "cell = levelWidth svg nodes i / real (levelCount nodes i)"
    have a: "posX (?L ! i) = 40 + innerWidthOf svg / 2 - levelWidth svg nodes i / 2 +
        (real (indexAtDepth nodes i) + 1 / 2) * cell"
      unfolding p[OF assms(2)] c(2) cell_def ..
    have b: "posX (?L ! i') = 40 + innerWidthOf svg / 2 - levelWidth svg nodes i / 2 +
        (real (indexAtDepth nodes i') + 1 / 2) * cell"
      unfolding p[OF i'] positionNode_coordinates(2)[OF i', of svg] k w cell_def ..
    have "posX (?L ! i') - posX (?L ! i) =
        (real (indexAtDepth nodes i') - real (indexAtDepth nodes i)) * cell"
      unfolding a b by (simp add: algebra_simps)
    then show ?thesis unfolding cell_def .
  qed
  have lone: "posX (?L ! i) = 40 + innerWidthOf svg / 2" if one: "levelCount nodes i = 1"
  proof -
    from one lt have "indexAtDepth nodes i = 0" by simp
    with one show ?thesis unfolding p[OF assms(2)] c(2) by simp
  qed
  from len c y1 lt sp even lone show ?thesis unfolding p[OF assms(2)] by blast
qed

lemma depth_list_facts:
  assumes "map depth ns = map depth ns'" and "i < length ns"
  shows "depth (ns ! i) = depth (ns' ! i)"
    and "levelCount ns i = levelCount ns' i"
    and "indexAtDepth ns i = indexAtDepth ns' i"
    and "Max (depth ` set ns) = Max (depth ` set ns')"
proof -
  have l: "length ns = length ns'" using arg_cong[where f = length, OF assms(1)] by simp
  have "depth (ns ! i) = map depth ns ! i" using assms(2) by simp
  also have "\<dots> = map depth ns' ! i" by (simp only: assms(1))
  also have "\<dots> = depth (ns' ! i)" using assms(2) l by simp
  finally show d: "depth (ns ! i) = depth (ns' ! i)" .
  have f: "length (filter (\<lambda>m. depth m = x) xs) = count_list (map depth xs) x"
    for x and xs :: "DFSNode list"
    by (induction xs) simp_all
  have "levelCount ns i = count_list (map depth ns) (depth (ns ! i))"
    by (simp only: levelCount_def depthNodes_def f)
  also have "\<dots> = count_list (map depth ns') (depth (ns' ! i))"
    by (simp only: d assms(1))
  also have "\<dots> = levelCount ns' i"
    by (simp only: levelCount_def depthNodes_def f)
  finally show "levelCount ns i = levelCount ns' i" .
  have t: "map depth (take i ns) = map depth (take i ns')"
    by (simp only: take_map[symmetric] assms(1))
  have "indexAtDepth ns i = count_list (map depth (take i ns)) (depth (ns ! i))"
    by (simp only: indexAtDepth_def depthNodes_def f)
  also have "\<dots> = count_list (map depth (take i ns')) (depth (ns' ! i))"
    by (simp only: d t)
  also have "\<dots> = indexAtDepth ns' i"
    by (simp only: indexAtDepth_def depthNodes_def f)
  finally show "indexAtDepth ns i = indexAtDepth ns' i" .
  have "depth ` set ns = depth ` set ns'"
    using arg_cong[where f = set, OF assms(1)] by simp
  then show "Max (depth ` set ns) = Max (depth ` set ns')" by (rule arg_cong)
qed

lemma layout_depends_on_depths:
  assumes "map depth ns = map depth ns'"
  shows "map coordinates (fst (createDFSLayout svg conns ns)) =
         map coordinates (fst (createDFSLayout svg conns' ns'))"
proof (cases "ns = []")
  case True
  with assms show ?thesis by (simp add: createDFSLayout_def)
next
  case False
  have l: "length ns = length ns'" using arg_cong[where f = length, OF assms] by simp
  with False have ne': "ns' \<noteq> []" by auto
  have "coordinates (positionNode (getDimensions svg) ns i) =
        coordinates (positionNode (getDimensions svg) ns' i)" if i: "i < length ns" for i
  proof -
    have i': "i < length ns'" using i l by simp
    note f = depth_list_facts[OF assms i]
    show ?thesis
      by (simp only: coordinates_def positionNode_coordinates[OF i]
            positionNode_coordinates[OF i'] levelWidth_def f)
  qed
  then show ?thesis
    unfolding createDFSLayout_nodes[OF False] createDFSLayout_nodes[OF ne'] l[symmetric]
    by simp
qed

lemma plainNode_depths: "map depth (map plainNode ps) = map depth ps"
  by (simp add: plainNode_def comp_def)

lemma createDFSLayout_depths:
  "map depth (fst (createDFSLayout svg conns ns)) = map depth ns"
proof (cases "ns = []")
  case True
  then show ?thesis by (simp add: createDFSLayout_def)
next
  case False
  have "map depth (map (positionNode (getDimensions svg) ns) [0..<length ns]) =
        map (\<lambda>i. depth (ns ! i)) [0..<length ns]"
    by (simp add: positionNode_def Let_def comp_def)
  also have "\<dots> = map depth (map (\<lambda>i. ns ! i) [0..<length ns])"
    by (simp only: map_map comp_def)
  also have "\<dots> = map depth ns"
    by (simp only: map_nth)
  finally show ?thesis unfolding createDFSLayout_nodes[OF False] .
qed

lemma renderTree_replaces:
  "svg \<noteq> None \<Longrightarrow> data \<noteq> None \<Longrightarrow>
   renderTree treeLayout svg data drawn = renderTree treeLayout svg data drawn'"
  by (auto simp: renderTree_def)

lemma renderTree_again:
  "renderTree treeLayout svg data (renderTree treeLayout svg data drawn) =
   renderTree treeLayout svg data drawn"
  by (cases svg; cases data) (simp_all add: renderTree_def)

text \<open>
  Claim C7. Neither layout draws on a random source or keeps state between two calls.
  The coordinates \<open>createDFSLayout\<close> assigns depend only on the container dimensions and on
  the sequence of depths: not on the identifiers of the nodes, which are random, nor on
  the connections; so laying the same sequence out again, or laying the positioned nodes
  out once more, gives the same coordinates. The drawing \<open>renderTree\<close> leaves, for any
  layout function of the library, is determined by the container and the data: rendering
  again onto its own result changes nothing, and when there is a container and data the
  drawing does not depend on what was drawn before.
\<close>

theorem layout_determinism:
  "(map depth ns = map depth ns' \<longrightarrow>
      map coordinates (fst (createDFSLayout svg conns ns)) =
      map coordinates (fst (createDFSLayout svg conns' ns'))) \<and>
   map coordinates (fst (createDFSLayout svg conns (map plainNode (fst (createDFSLayout svg conns ns))))) =
   map coordinates (fst (createDFSLayout svg conns ns)) \<and>
   renderTree treeLayout svg data (renderTree treeLayout svg data drawn) =
   renderTree treeLayout svg data drawn \<and>
   (svg \<noteq> None \<longrightarrow> data \<noteq> None \<longrightarrow>
      renderTree treeLayout svg data drawn = renderTree treeLayout svg data drawn')"
proof -
  have "map depth (map plainNode (fst (createDFSLayout svg conns ns))) = map depth ns"
    by (simp only: plainNode_depths createDFSLayout_depths)
  from layout_depends_on_depths[OF this] layout_depends_on_depths[of ns ns' svg conns conns']
    renderTree_again[of treeLayout svg data drawn]
    renderTree_replaces[of svg data treeLayout drawn drawn']
  show ?thesis by blast
qed

lemma twoLevels_layout:
  "map coordinates (fst (createDFSLayout None [] twoLevels)) = [(400, 40), (220, 560), (580, 560)]"
  by (simp add: createDFSLayout_def twoLevels_def positionNode_def getDimensions_def Let_def
        coordinates_def indexAtDepth_def depthNodes_def upt_rec[of 0] upt_rec[of 1] upt_rec[of 2])

lemma twoLevels_facts:
  "twoLevels \<noteq> []" "length twoLevels = 3"
  "map depth twoLevels = map depth twoLevelsAgain"
  "levelCount twoLevels 0 = 1" "levelCount twoLevels (Suc 0) = 2"
  "indexAtDepth twoLevels 0 = 0" "indexAtDepth twoLevels (Suc 0) = 0"
  "innerWidthOf None = 720" "innerHeightOf None = 520"
  "levelWidth None twoLevels 0 = 720" "levelWidth None twoLevels (Suc 0) = 720"
  "Max (depth ` set twoLevels) = 1"
  "depth (twoLevels ! 0) = 0" "depth (twoLevels ! Suc 0) = 1"
  by (simp_all add: twoLevels_def twoLevelsAgain_def levelCount_def indexAtDepth_def
        depthNodes_def innerWidthOf_def innerHeightOf_def getDimensions_def levelWidth_def)

lemma twoLevels_more:
  "indexAtDepth twoLevels 2 = 1" "depth (twoLevels ! 2) = 1" "(1::int) \<le> Max (depth ` set twoLevels)"
  by (simp_all add: twoLevels_def indexAtDepth_def depthNodes_def)

text \<open>
  The theorem at the three-node trace in the default 800 by 600 container.
\<close>

theorem dfs_layout_spreads_levels_witness:
  "twoLevels \<noteq> [] \<and> 0 < length twoLevels \<and> 1 < length twoLevels \<and> 2 < length twoLevels \<and>
   levelCount twoLevels 0 = 1 \<and> 1 \<le> Max (depth ` set twoLevels) \<and>
   depth (twoLevels ! 2) = depth (twoLevels ! 1) \<and>
   posX (fst (createDFSLayout None [] twoLevels) ! 0) = 400 \<and>
   posY (fst (createDFSLayout None [] twoLevels) ! 0) = 40 \<and>
   posX (fst (createDFSLayout None [] twoLevels) ! 1) = 220 \<and>
   posY (fst (createDFSLayout None [] twoLevels) ! 1) = 560 \<and>
   posX (fst (createDFSLayout None [] twoLevels) ! 2) -
   posX (fst (createDFSLayout None [] twoLevels) ! 1) = 360"
proof -
  have a: "twoLevels \<noteq> []" and b: "0 < length twoLevels" and c: "1 < length twoLevels"
    and d: "2 < length twoLevels"
    by (simp_all add: twoLevels_facts)
  have e: "depth (twoLevels ! 2) = depth (twoLevels ! 1)"
    by (simp add: twoLevels_facts twoLevels_more)
  note t0 = dfs_layout_spreads_levels[OF a b, of None "[]"]
  note t1 = dfs_layout_spreads_levels[OF a c, of None "[]"]
  from t1 have "\<forall>i'<length twoLevels. depth (twoLevels ! i') = depth (twoLevels ! 1) \<longrightarrow>
        posX (fst (createDFSLayout None [] twoLevels) ! i') -
        posX (fst (createDFSLayout None [] twoLevels) ! 1) =
          (real (indexAtDepth twoLevels i') - real (indexAtDepth twoLevels 1)) *
          (levelWidth None twoLevels 1 / real (levelCount twoLevels 1))"
    by blast
  from this[rule_format, OF d e]
  have s: "posX (fst (createDFSLayout None [] twoLevels) ! 2) -
        posX (fst (createDFSLayout None [] twoLevels) ! 1) = 360"
    by (simp add: twoLevels_facts twoLevels_more)
  from t0 t1 a b c d e s show ?thesis by (simp add: twoLevels_facts twoLevels_more)
qed

lemma mudRecipe_drawing:
  "renderTree columnLayout (Some (800, 600)) (Some mudRecipe) None =
     Some \<lparr>nodeTranslate = [(0, 0), (0, 357 / 2), (0, 357)],
           circleRadius = 597 / 20,
           zoomTransform = Some (400, 243 / 2, 4 / 5)\<rparr>"
  by (simp add: renderTree_def columnLayout_def mudRecipe_def getDimensions_def treeBounds_def
        Let_def upt_rec[of 0] upt_rec[of 1] upt_rec[of 2])

text \<open>
  The theorem at the two three-node traces, and at the tree \<open>Mud[Water, Earth]\<close> in an 800 by
  600 container, drawn on an empty container and over a stale drawing.
\<close>

theorem layout_determinism_witness:
  "map depth twoLevels = map depth twoLevelsAgain \<and>
   map coordinates (fst (createDFSLayout None [] twoLevels)) =
   map coordinates (fst (createDFSLayout None [] twoLevelsAgain)) \<and>
   Some (800, 600) \<noteq> (None :: (int \<times> int) option) \<and> Some mudRecipe \<noteq> None \<and>
   renderTree columnLayout (Some (800, 600)) (Some mudRecipe) (Some staleDrawing) =
     Some \<lparr>nodeTranslate = [(0, 0), (0, 357 / 2), (0, 357)],
           circleRadius = 597 / 20,
           zoomTransform = Some (400, 243 / 2, 4 / 5)\<rparr>"
proof -
  note t = layout_determinism[of twoLevels twoLevelsAgain None "[]" "[]" columnLayout
      "Some mudRecipe" "Some staleDrawing" None]
  note r = layout_determinism[of twoLevels twoLevelsAgain "Some (800, 600)" "[]" "[]" columnLayout
      "Some mudRecipe" "Some staleDrawing" None]
  from r have "renderTree columnLayout (Some (800, 600)) (Some mudRecipe) (Some staleDrawing) =
      renderTree columnLayout (Some (800, 600)) (Some mudRecipe) None"
    by simp
  with t twoLevels_facts(3) mudRecipe_drawing show ?thesis by simp
qed

end
